theory Spec2Isabelle
  imports Main "HOL-Library.Multiset" "HOL-Library.Product_Lexorder"
begin

section \<open>Entities\<close>

text \<open>
  The source is \<^verbatim>\<open>flair/datasets/biomedical.py\<close>.  Python integers are modelled as
  \<^typ>\<open>int\<close>, exceptions as values of \<open>error + 'a\<close>.  A Python \<^verbatim>\<open>range(a, b)\<close> keeps its
  two bounds; it holds \<open>max 0 (b - a)\<close> integers (\<open>span_len\<close>) and membership is
  \<open>a \<le> x < b\<close>.  \<^verbatim>\<open>len\<close> of a range returns that number when it fits the interpreter's
  index type and raises \<^verbatim>\<open>OverflowError\<close> otherwise; \<open>ssize_max\<close> is \<^verbatim>\<open>sys.maxsize\<close>
  of a 64-bit CPython.
\<close>

datatype error = AssertionError | IndexError | KeyError | OverflowError

record py_range =
  start :: int
  stop :: int

definition span_len :: "py_range \<Rightarrow> int" where
  "span_len r = max 0 (stop r - start r)"

definition ssize_max :: int where
  "ssize_max = 2 ^ 63 - 1"

definition range_len :: "py_range \<Rightarrow> error + int" where
  "range_len r = (if span_len r > ssize_max then Inl OverflowError else Inr (span_len r))"

definition in_range :: "int \<Rightarrow> py_range \<Rightarrow> bool" where
  "in_range x r = (start r \<le> x \<and> x < stop r)"

record Entity =
  char_span :: py_range
  type :: string

text \<open>
  \<^verbatim>\<open>Entity.__init__\<close>: the assertion \<^verbatim>\<open>char_span[0] < char_span[1]\<close>, then the two fields.
\<close>

definition Entity_init :: "int \<times> int \<Rightarrow> string \<Rightarrow> error + Entity" where
  "Entity_init span entity_type =
     (if fst span < snd span
      then Inr \<lparr>char_span = \<lparr>start = fst span, stop = snd span\<rparr>, type = entity_type\<rparr>
      else Inl AssertionError)"

text \<open>\<^verbatim>\<open>Entity.is_before\<close>, \<^verbatim>\<open>Entity.contains\<close> and \<^verbatim>\<open>Entity.overlaps\<close>, as written.\<close>

definition is_before :: "Entity \<Rightarrow> Entity \<Rightarrow> bool" where
  "is_before self other = (stop (char_span self) \<le> start (char_span other))"

definition contains :: "Entity \<Rightarrow> Entity \<Rightarrow> bool" where
  "contains self other =
     (start (char_span other) \<ge> start (char_span self) \<and>
      stop (char_span other) \<le> stop (char_span self))"

definition overlaps :: "Entity \<Rightarrow> Entity \<Rightarrow> bool" where
  "overlaps self other =
     ((start (char_span self) \<le> start (char_span other) \<and>
       start (char_span other) < stop (char_span self)) \<or>
      (start (char_span self) < stop (char_span other) \<and>
       stop (char_span other) \<le> stop (char_span self)))"

text \<open>
  The specification's reading of overlap: the half-open intervals
  \<open>[start, stop)\<close> of the two entities have a common point.
\<close>

definition spans_intersect :: "Entity \<Rightarrow> Entity \<Rightarrow> bool" where
  "spans_intersect a b =
     ({start (char_span a) ..< stop (char_span a)} \<inter>
      {start (char_span b) ..< stop (char_span b)} \<noteq> {})"

text \<open>An entity built by the constructor has a non-empty span.\<close>

definition valid_entity :: "Entity \<Rightarrow> bool" where
  "valid_entity e = (start (char_span e) < stop (char_span e))"

section \<open>Document collections\<close>

text \<open>
  A Python \<^verbatim>\<open>dict\<close> is an association list in insertion order whose keys are distinct
  (\<open>is_dict\<close>); lookup is \<^const>\<open>map_of\<close>.  \<open>dict_set\<close> is \<^verbatim>\<open>d[k] = v\<close>: an existing key
  keeps its place, a new key goes to the end.  \<open>dict_update\<close> is \<^verbatim>\<open>d.update(other)\<close>.
\<close>

fun dict_set :: "'k \<Rightarrow> 'v \<Rightarrow> ('k \<times> 'v) list \<Rightarrow> ('k \<times> 'v) list" where
  "dict_set k v [] = [(k, v)]"
| "dict_set k v (kv # d) = (if fst kv = k then (k, v) # d else kv # dict_set k v d)"

fun dict_update :: "('k \<times> 'v) list \<Rightarrow> ('k \<times> 'v) list \<Rightarrow> ('k \<times> 'v) list" where
  "dict_update d [] = d"
| "dict_update d (kv # other) = dict_update (dict_set (fst kv) (snd kv) d) other"

definition dict_get :: "('k \<times> 'v) list \<Rightarrow> 'k \<Rightarrow> error + 'v" where
  "dict_get d k = (case map_of d k of None \<Rightarrow> Inl KeyError | Some v \<Rightarrow> Inr v)"

record 'e InternalBioNerDataset =
  documents :: "(string \<times> string) list"
  entities_per_document :: "(string \<times> 'e list) list"

fun merge_loop ::
  "(string \<times> string) list \<Rightarrow> (string \<times> 'e list) list \<Rightarrow> 'e InternalBioNerDataset list \<Rightarrow>
   (string \<times> string) list \<times> (string \<times> 'e list) list" where
  "merge_loop all_documents all_entities [] = (all_documents, all_entities)"
| "merge_loop all_documents all_entities (ds # data_sets) =
     merge_loop (dict_update all_documents (documents ds))
       (dict_update all_entities (entities_per_document ds)) data_sets"

definition merge_datasets :: "'e InternalBioNerDataset list \<Rightarrow> 'e InternalBioNerDataset" where
  "merge_datasets data_sets =
     (case merge_loop [] [] data_sets of
        (all_documents, all_entities) \<Rightarrow>
          \<lparr>documents = all_documents, entities_per_document = all_entities\<rparr>)"

fun last_binding :: "('k \<times> 'v) list list \<Rightarrow> 'k \<Rightarrow> 'v option" where
  "last_binding [] k = None"
| "last_binding (d # ds) k =
     (case last_binding ds k of Some v \<Rightarrow> Some v | None \<Rightarrow> map_of d k)"

definition is_dict :: "('k \<times> 'v) list \<Rightarrow> bool" where
  "is_dict d = distinct (map fst d)"

section \<open>Type filtering on a store of entity objects\<close>

text \<open>
  \<^verbatim>\<open>filter_and_map_entities\<close> copies entity objects and assigns to the copy's
  \<^verbatim>\<open>type\<close> attribute.  To say that the objects of the input are left alone, entities are
  here references into a store (a list of objects, a reference is an index);
  \<^verbatim>\<open>copy(entity)\<close> allocates a new object with the same attributes, and the assignment
  \<^verbatim>\<open>new_entity.type = ...\<close> writes the store at the reference it is given.
\<close>

type_synonym ref = nat
type_synonym heap = "Entity list"

definition copy_obj :: "heap \<Rightarrow> ref \<Rightarrow> heap \<times> ref" where
  "copy_obj h r = (h @ [h ! r], length h)"

definition set_type :: "heap \<Rightarrow> ref \<Rightarrow> string \<Rightarrow> heap" where
  "set_type h r t = h[r := (h ! r)\<lparr>type := t\<rparr>]"

fun map_entities ::
  "(string \<rightharpoonup> string) \<Rightarrow> heap \<Rightarrow> ref list \<Rightarrow> ref list \<Rightarrow> heap \<times> ref list" where
  "map_entities m h [] new_entities = (h, new_entities)"
| "map_entities m h (entity # entities) new_entities =
     (case m (type (h ! entity)) of
        Some canonical \<Rightarrow>
          (case copy_obj h entity of
             (h1, new_entity) \<Rightarrow>
               map_entities m (set_type h1 new_entity canonical) entities
                 (new_entities @ [new_entity]))
      | None \<Rightarrow> map_entities m h entities new_entities)"

fun map_documents ::
  "(string \<rightharpoonup> string) \<Rightarrow> heap \<Rightarrow> (string \<times> ref list) list \<Rightarrow> (string \<times> ref list) list \<Rightarrow>
   heap \<times> (string \<times> ref list) list" where
  "map_documents m h [] mapped = (h, mapped)"
| "map_documents m h (item # items) mapped =
     (case map_entities m h (snd item) [] of
        (h', new_entities) \<Rightarrow>
          map_documents m h' items (dict_set (fst item) new_entities mapped))"

definition filter_and_map_entities ::
  "heap \<Rightarrow> ref InternalBioNerDataset \<Rightarrow> (string \<rightharpoonup> string) \<Rightarrow>
   heap \<times> ref InternalBioNerDataset" where
  "filter_and_map_entities h dataset entity_type_to_canonical =
     (case map_documents entity_type_to_canonical h (entities_per_document dataset) [] of
        (h', mapped) \<Rightarrow>
          (h', \<lparr>documents = documents dataset, entities_per_document = mapped\<rparr>))"

definition relabel :: "(string \<rightharpoonup> string) \<Rightarrow> Entity \<Rightarrow> Entity option" where
  "relabel m e = (case m (type e) of Some t \<Rightarrow> Some (e\<lparr>type := t\<rparr>) | None \<Rightarrow> None)"

definition refs_allocated :: "heap \<Rightarrow> ref InternalBioNerDataset \<Rightarrow> bool" where
  "refs_allocated h dataset =
     list_all (\<lambda>item. list_all (\<lambda>r. r < length h) (snd item)) (entities_per_document dataset)"

text \<open>Example data: three entities of types A, B, A in one document, and the map A to X.\<close>

definition example_heap :: heap where
  "example_heap =
     [\<lparr>char_span = \<lparr>start = 0, stop = 3\<rparr>, type = ''A''\<rparr>,
      \<lparr>char_span = \<lparr>start = 4, stop = 6\<rparr>, type = ''B''\<rparr>,
      \<lparr>char_span = \<lparr>start = 7, stop = 9\<rparr>, type = ''A''\<rparr>]"

definition example_refs :: "ref InternalBioNerDataset" where
  "example_refs =
     \<lparr>documents = [(''d'', ''abc de fg'')], entities_per_document = [(''d'', [0, 1, 2])]\<rparr>"

section \<open>The conflict resolver\<close>

text \<open>
  \<^verbatim>\<open>filter_nested_entities\<close>.  A row of \<^verbatim>\<open>dp_array\<close> is the tuple
  (position end, number of entities, sum of all entity lengths, last entity).
  \<open>py_in_bounds\<close> and \<open>py_nth\<close> are Python's list indexing: an index \<open>i\<close> with
  \<open>-len \<le> i < len\<close> is valid and a negative one counts from the end; any other index
  raises \<^verbatim>\<open>IndexError\<close>.
\<close>

type_synonym dp_entry = "int \<times> int \<times> int \<times> Entity option"

definition position_end :: "dp_entry \<Rightarrow> int" where
  "position_end r = fst r"

definition num_entities :: "dp_entry \<Rightarrow> int" where
  "num_entities r = fst (snd r)"

definition sum_lengths :: "dp_entry \<Rightarrow> int" where
  "sum_lengths r = fst (snd (snd r))"

definition last_entity :: "dp_entry \<Rightarrow> Entity option" where
  "last_entity r = snd (snd (snd r))"

definition py_in_bounds :: "'a list \<Rightarrow> int \<Rightarrow> bool" where
  "py_in_bounds xs i = (- int (length xs) \<le> i \<and> i < int (length xs))"

definition py_nth :: "'a list \<Rightarrow> int \<Rightarrow> 'a" where
  "py_nth xs i = xs ! nat (if i < 0 then int (length xs) + i else i)"

text \<open>
  The inner \<^verbatim>\<open>while dp_array[i][0] > entity.char_span.start: i -= 1\<close>, started at
  \<open>len(dp_array) - 1\<close>; it returns the index at which it stops.
\<close>

function find_compatible :: "dp_entry list \<Rightarrow> int \<Rightarrow> int \<Rightarrow> error + int" where
  "find_compatible dp_array i s =
     (if \<not> py_in_bounds dp_array i then Inl IndexError
      else if position_end (py_nth dp_array i) > s then find_compatible dp_array (i - 1) s
      else Inr i)"
  by pat_completeness auto

termination
  by (relation "measure (\<lambda>(dp_array, i, s). nat (i + int (length dp_array) + 1))")
    (auto simp: py_in_bounds_def)

text \<open>
  One iteration of the loop over the entities sorted by end offset.  The condition is
  \<^verbatim>\<open>A or (B and C)\<close>: \<^verbatim>\<open>len(entity.char_span)\<close> is evaluated in \<^verbatim>\<open>C\<close> only when
  \<^verbatim>\<open>A\<close> is false and \<^verbatim>\<open>B\<close> is true, and again in the new row when the condition holds.
\<close>

definition dp_step :: "dp_entry list \<Rightarrow> Entity \<Rightarrow> error + dp_entry list" where
  "dp_step dp_array entity =
     (case find_compatible dp_array (int (length dp_array) - 1) (start (char_span entity)) of
        Inl err \<Rightarrow> Inl err
      | Inr i \<Rightarrow>
          (if num_entities (py_nth dp_array i) + 1 > num_entities (last dp_array)
           then (case range_len (char_span entity) of
                   Inl err \<Rightarrow> Inl err
                 | Inr n \<Rightarrow>
                     Inr (dp_array @
                       [(stop (char_span entity), num_entities (py_nth dp_array i) + 1,
                         sum_lengths (py_nth dp_array i) + n, Some entity)]))
           else if num_entities (py_nth dp_array i) + 1 = num_entities (last dp_array)
           then (case range_len (char_span entity) of
                   Inl err \<Rightarrow> Inl err
                 | Inr n \<Rightarrow>
                     (if sum_lengths (py_nth dp_array i) + n > sum_lengths (last dp_array)
                      then Inr (dp_array @
                        [(stop (char_span entity), num_entities (py_nth dp_array i) + 1,
                          sum_lengths (py_nth dp_array i) + n, Some entity)])
                      else Inr (dp_array @ [last dp_array])))
           else Inr (dp_array @ [last dp_array])))"

fun dp_loop :: "dp_entry list \<Rightarrow> Entity list \<Rightarrow> error + dp_entry list" where
  "dp_loop dp_array [] = Inr dp_array"
| "dp_loop dp_array (entity # entities) =
     (case dp_step dp_array entity of
        Inl err \<Rightarrow> Inl err
      | Inr dp_array' \<Rightarrow> dp_loop dp_array' entities)"

text \<open>
  The reconstruction loop over \<^verbatim>\<open>dp_array[::-1]\<close>: it stops at the first row without an
  entity, takes a row's entity when the row's position end is at most \<open>p\<close>, and then
  lowers \<open>p\<close> by the entity's length.
\<close>

fun backtrack :: "dp_entry list \<Rightarrow> int \<Rightarrow> Entity list \<Rightarrow> error + Entity list" where
  "backtrack [] p independent_set = Inr independent_set"
| "backtrack (dp_entry # rest) p independent_set =
     (case last_entity dp_entry of
        None \<Rightarrow> Inr independent_set
      | Some e \<Rightarrow>
          (if position_end dp_entry \<le> p
           then (case range_len (char_span e) of
                   Inl err \<Rightarrow> Inl err
                 | Inr n \<Rightarrow> backtrack rest (p - n) (independent_set @ [e]))
           else backtrack rest p independent_set))"

text \<open>
  The body of the loop over the documents: \<^verbatim>\<open>sorted\<close> is stable, as \<^const>\<open>sort_key\<close> is.
\<close>

definition dp_table :: "Entity list \<Rightarrow> error + dp_entry list" where
  "dp_table entities =
     dp_loop [(0, 0, 0, None)] (sort_key (\<lambda>x. stop (char_span x)) entities)"

definition filter_nested_document :: "Entity list \<Rightarrow> error + Entity list" where
  "filter_nested_document entities =
     (case dp_table entities of
        Inl err \<Rightarrow> Inl err
      | Inr dp_array \<Rightarrow> backtrack (rev dp_array) (position_end (last dp_array)) [])"

text \<open>The entity with span \<open>[a, b)\<close> and type \<open>t\<close>, for writing examples.\<close>

definition Ent :: "int \<Rightarrow> int \<Rightarrow> string \<Rightarrow> Entity" where
  "Ent a b t = \<lparr>char_span = \<lparr>start = a, stop = b\<rparr>, type = t\<rparr>"

text \<open>
  The specification's side of the resolver: a list of entities is independent when no
  two of its members have intersecting spans; the two-level objective of a list is its
  number of entities and then its total length, compared lexicographically.
\<close>

fun independent :: "Entity list \<Rightarrow> bool" where
  "independent [] = True"
| "independent (x # xs) = (list_all (\<lambda>y. \<not> spans_intersect x y) xs \<and> independent xs)"

definition total_len :: "Entity list \<Rightarrow> int" where
  "total_len S = sum_list (map (\<lambda>e. span_len (char_span e)) S)"

definition objective :: "Entity list \<Rightarrow> int \<times> int" where
  "objective S = (int (length S), total_len S)"

definition row_objective :: "dp_entry \<Rightarrow> int \<times> int" where
  "row_objective r = (num_entities r, sum_lengths r)"

definition objective_le :: "int \<times> int \<Rightarrow> int \<times> int \<Rightarrow> bool" where
  "objective_le a b = (fst a < fst b \<or> (fst a = fst b \<and> snd a \<le> snd b))"

text \<open>
  The row appended when an entity improves on the last row, and the invariant of the
  table after the entities \<open>xs\<close> have been processed: every row is attained by an
  independent selection that ends at or before the row's position end, the last row is
  the best row, and the row found by the backward search for a bound \<open>B\<close> bounds every
  independent selection that ends at or before \<open>B\<close>.
\<close>

definition new_row :: "dp_entry \<Rightarrow> Entity \<Rightarrow> dp_entry" where
  "new_row r entity =
     (stop (char_span entity), num_entities r + 1,
      sum_lengths r + span_len (char_span entity), Some entity)"

definition dp_inv :: "dp_entry list \<Rightarrow> Entity list \<Rightarrow> bool" where
  "dp_inv dp xs =
     (dp \<noteq> [] \<and> position_end (dp ! 0) = 0 \<and>
      (\<forall>r\<in>set dp. position_end r = 0 \<or> (\<exists>x\<in>set xs. position_end r = stop (char_span x))) \<and>
      (\<forall>r\<in>set dp. objective_le (row_objective r) (row_objective (last dp))) \<and>
      (\<forall>r\<in>set dp. \<exists>S. mset S \<subseteq># mset xs \<and> independent S \<and> objective S = row_objective r \<and>
         (\<forall>s\<in>set S. stop (char_span s) \<le> position_end r)) \<and>
      (\<forall>B T j. mset T \<subseteq># mset xs \<and> independent T \<and> (\<forall>t\<in>set T. stop (char_span t) \<le> B) \<and>
         j < length dp \<and> position_end (dp ! j) \<le> B \<and>
         (\<forall>k. j < k \<and> k < length dp \<longrightarrow> B < position_end (dp ! k)) \<longrightarrow>
         objective_le (objective T) (row_objective (dp ! j))))"

text \<open>
  The loop over \<^verbatim>\<open>dataset.entities_per_document.items()\<close>, which assigns each
  document's list in place, the two entity counts and the warning.  The result carries
  the number reported by the warning, or \<open>None\<close> when no warning is issued.
\<close>

fun filter_nested_loop ::
  "(string \<times> Entity list) list \<Rightarrow> (string \<times> Entity list) list \<Rightarrow>
   error + (string \<times> Entity list) list" where
  "filter_nested_loop d [] = Inr d"
| "filter_nested_loop d (item # items) =
     (case filter_nested_document (snd item) of
        Inl err \<Rightarrow> Inl err
      | Inr independent_set \<Rightarrow> filter_nested_loop (dict_set (fst item) independent_set d) items)"

definition count_entities :: "(string \<times> 'e list) list \<Rightarrow> int" where
  "count_entities d = sum_list (map (\<lambda>x. int (length (snd x))) d)"

definition filter_nested_entities ::
  "Entity InternalBioNerDataset \<Rightarrow> error + Entity InternalBioNerDataset \<times> int option" where
  "filter_nested_entities dataset =
     (let num_entities_before = count_entities (entities_per_document dataset) in
      case filter_nested_loop (entities_per_document dataset) (entities_per_document dataset) of
        Inl err \<Rightarrow> Inl err
      | Inr d \<Rightarrow>
          (let num_entities_after = count_entities d in
           Inr (dataset\<lparr>entities_per_document := d\<rparr>,
                if num_entities_before \<noteq> num_entities_after
                then Some (num_entities_before - num_entities_after) else None)))"

section \<open>The tagging writer\<close>

text \<open>
  \<^verbatim>\<open>CoNLLWriter.write_to_conll\<close>.  A text is a list of characters, one element per
  character; \<open>isspace\<close> is Python's \<^verbatim>\<open>str.isspace\<close> on the code points below 256, and
  \<open>strip\<close> is \<^verbatim>\<open>str.strip()\<close>.  \<open>py_getitem\<close> is \<^verbatim>\<open>text[i]\<close>, which raises
  \<^verbatim>\<open>IndexError\<close> out of bounds.
\<close>

definition isspace :: "char \<Rightarrow> bool" where
  "isspace c = (of_char c \<in> {9, 10, 11, 12, 13, 28, 29, 30, 31, 32, 133, 160 :: nat})"

definition strip :: "string \<Rightarrow> string" where
  "strip s = rev (dropWhile isspace (rev (dropWhile isspace s)))"

definition py_getitem :: "'a list \<Rightarrow> int \<Rightarrow> error + 'a" where
  "py_getitem xs i = (if py_in_bounds xs i then Inr (py_nth xs i) else Inl IndexError)"

text \<open>
  The writer's variables while it walks one document: the pending entity, the rest of
  the queue of entities sorted by (start, end), and the inside-entity flag.  What it
  computes for one token is a row; the file gets a line for each row whose token is
  not empty.
\<close>

record writer_state =
  current_entity :: "Entity option"
  entities_deque :: "Entity list"
  in_entity :: bool

record conll_row =
  token :: string
  tag :: string
  whitespace_after :: string

text \<open>
  The inner \<^verbatim>\<open>while current_entity and offset >= current_entity.char_span.stop\<close>, which
  pops the queue until the pending entity ends after the offset or the queue is empty.
\<close>

fun pop_finished :: "int \<Rightarrow> Entity option \<Rightarrow> Entity list \<Rightarrow> Entity option \<times> Entity list" where
  "pop_finished offset None q = (None, q)"
| "pop_finished offset (Some e) q =
     (if offset \<ge> stop (char_span e)
      then (case q of [] \<Rightarrow> (None, []) | x # q' \<Rightarrow> pop_finished offset (Some x) q')
      else (Some e, q))"

text \<open>The tag of the token at \<open>offset\<close> and the writer's variables after it.\<close>

definition assign_tag :: "int \<Rightarrow> writer_state \<Rightarrow> string \<times> writer_state" where
  "assign_tag offset st =
     (let st1 =
        (case current_entity st of
           Some e \<Rightarrow>
             if offset \<ge> stop (char_span e)
             then (case pop_finished offset (current_entity st) (entities_deque st) of
                     (c, q) \<Rightarrow> \<lparr>current_entity = c, entities_deque = q, in_entity = False\<rparr>)
             else st
         | None \<Rightarrow> st)
      in case current_entity st1 of
           Some e \<Rightarrow>
             if in_range offset (char_span e)
             then (if \<not> in_entity st1
                   then (''B-'' @ type e, st1\<lparr>in_entity := True\<rparr>)
                   else (''I-'' @ type e, st1))
             else (''O'', st1\<lparr>in_entity := False\<rparr>)
         | None \<Rightarrow> (''O'', st1\<lparr>in_entity := False\<rparr>))"

text \<open>
  The whitespace marker: \<^verbatim>\<open>and\<close> evaluates the text index only when the next offset is
  before the sentence end.
\<close>

definition whitespace_marker :: "string \<Rightarrow> int \<Rightarrow> int \<Rightarrow> error + string" where
  "whitespace_marker document_text next_token_offset sentence_end_offset =
     (if next_token_offset < sentence_end_offset
      then (case py_getitem document_text next_token_offset of
              Inl err \<Rightarrow> Inl err
            | Inr c \<Rightarrow> Inr (if \<not> isspace c then ''-'' else ''+''))
      else Inr ''+'')"

text \<open>The body of the loop over the tokens of a sentence, and the two loops.\<close>

definition process_token ::
  "string \<Rightarrow> string \<Rightarrow> int \<Rightarrow> string \<times> int \<Rightarrow> writer_state \<Rightarrow>
   error + conll_row \<times> writer_state" where
  "process_token document_text sentence sentence_offset tok st =
     (let tk = strip (fst tok); offset = sentence_offset + snd tok in
      case assign_tag offset st of
        (tg, st') \<Rightarrow>
          (case whitespace_marker document_text (offset + int (length tk))
                  (sentence_offset + int (length sentence)) of
             Inl err \<Rightarrow> Inl err
           | Inr ws \<Rightarrow> Inr (\<lparr>token = tk, tag = tg, whitespace_after = ws\<rparr>, st')))"

fun write_tokens ::
  "string \<Rightarrow> string \<Rightarrow> int \<Rightarrow> (string \<times> int) list \<Rightarrow> writer_state \<Rightarrow>
   error + conll_row list \<times> writer_state" where
  "write_tokens document_text sentence sentence_offset [] st = Inr ([], st)"
| "write_tokens document_text sentence sentence_offset (tok # toks) st =
     (case process_token document_text sentence sentence_offset tok st of
        Inl err \<Rightarrow> Inl err
      | Inr (row, st') \<Rightarrow>
          (case write_tokens document_text sentence sentence_offset toks st' of
             Inl err \<Rightarrow> Inl err
           | Inr (rows, st'') \<Rightarrow> Inr (row # rows, st'')))"

text \<open>
  The tokenizer and the sentence splitter are parameters: each returns a list of strings
  and a list of offsets, which the writer zips.
\<close>

definition tokens_of :: "(string \<Rightarrow> string list \<times> int list) \<Rightarrow> string \<Rightarrow> (string \<times> int) list" where
  "tokens_of tokenizer sentence = zip (fst (tokenizer sentence)) (snd (tokenizer sentence))"

fun write_sentences ::
  "(string \<Rightarrow> string list \<times> int list) \<Rightarrow> string \<Rightarrow> (string \<times> int) list \<Rightarrow> writer_state \<Rightarrow>
   error + conll_row list list \<times> writer_state" where
  "write_sentences tokenizer document_text [] st = Inr ([], st)"
| "write_sentences tokenizer document_text (sent # sents) st =
     (case write_tokens document_text (fst sent) (snd sent) (tokens_of tokenizer (fst sent))
             (st\<lparr>in_entity := False\<rparr>) of
        Inl err \<Rightarrow> Inl err
      | Inr (rows, st') \<Rightarrow>
          (case write_sentences tokenizer document_text sents st' of
             Inl err \<Rightarrow> Inl err
           | Inr (rowss, st'') \<Rightarrow> Inr (rows # rowss, st'')))"

text \<open>
  \<^verbatim>\<open>deque(sorted(..., key=attrgetter("char_span.start", "char_span.stop")))\<close> and the first
  \<^verbatim>\<open>popleft\<close>; pairs are ordered lexicographically.
\<close>

definition initial_state :: "Entity list \<Rightarrow> writer_state" where
  "initial_state ents =
     (case sort_key (\<lambda>e. (start (char_span e), stop (char_span e))) ents of
        [] \<Rightarrow> \<lparr>current_entity = None, entities_deque = [], in_entity = False\<rparr>
      | e # q \<Rightarrow> \<lparr>current_entity = Some e, entities_deque = q, in_entity = False\<rparr>)"

definition sentences_of :: "(string \<Rightarrow> string list \<times> int list) \<Rightarrow> string \<Rightarrow> (string \<times> int) list" where
  "sentences_of sentence_splitter document_text =
     zip (fst (sentence_splitter document_text)) (snd (sentence_splitter document_text))"

definition write_document ::
  "(string \<Rightarrow> string list \<times> int list) \<Rightarrow> (string \<Rightarrow> string list \<times> int list) \<Rightarrow>
   string \<Rightarrow> Entity list \<Rightarrow> error + conll_row list list" where
  "write_document tokenizer sentence_splitter document_text ents =
     (case write_sentences tokenizer document_text (sentences_of sentence_splitter document_text)
             (initial_state ents) of
        Inl err \<Rightarrow> Inl err
      | Inr (rowss, st) \<Rightarrow> Inr rowss)"

text \<open>
  The lines written for a sentence: one for each row with a non-empty token, and an
  empty line when there was such a row.
\<close>

definition render_sentence :: "conll_row list \<Rightarrow> string list" where
  "render_sentence rows =
     (let written = filter (\<lambda>r. length (token r) > 0) rows
      in map (\<lambda>r. token r @ '' '' @ tag r @ '' '' @ whitespace_after r) written @
         (if written \<noteq> [] then [''''] else []))"

text \<open>
  \<^verbatim>\<open>sentence_split_one_sentence_per_doc\<close> of the source, and a tokenizer and a splitter
  for the examples.
\<close>

definition sentence_split_one_sentence_per_doc :: "string \<Rightarrow> string list \<times> int list" where
  "sentence_split_one_sentence_per_doc text = ([text], [0])"

definition example_tokenizer :: "string \<Rightarrow> string list \<times> int list" where
  "example_tokenizer s =
     (if s = ''John has flu.'' then ([''John'', ''has'', ''flu'', ''.''], [0, 5, 9, 12])
      else if s = ''acute heart attack now''
        then ([''acute'', ''heart'', ''attack'', ''now''], [0, 6, 12, 19])
      else if s = ''heart'' then ([''heart''], [0])
      else if s = ''attack'' then ([''attack''], [0])
      else ([], []))"

definition example_splitter :: "string \<Rightarrow> string list \<times> int list" where
  "example_splitter text = ([''heart'', ''attack''], [0, 6])"

text \<open>
  The whole of \<^verbatim>\<open>write_to_conll\<close>: the conflict resolver first, then every document in
  the order of \<^verbatim>\<open>dataset.documents.keys()\<close>; \<open>fix_text\<close> is the text repair function.
  The result holds the lines of the file, the dataset as the resolver left it and the
  resolver's warning.
\<close>

fun write_documents ::
  "(string \<Rightarrow> string) \<Rightarrow> (string \<Rightarrow> string list \<times> int list) \<Rightarrow>
   (string \<Rightarrow> string list \<times> int list) \<Rightarrow> Entity InternalBioNerDataset \<Rightarrow> string list \<Rightarrow>
   error + string list" where
  "write_documents fix_text tokenizer sentence_splitter dataset [] = Inr []"
| "write_documents fix_text tokenizer sentence_splitter dataset (document_id # ids) =
     (case dict_get (documents dataset) document_id of
        Inl err \<Rightarrow> Inl err
      | Inr doc \<Rightarrow>
          (case dict_get (entities_per_document dataset) document_id of
             Inl err \<Rightarrow> Inl err
           | Inr ents \<Rightarrow>
               (case write_document tokenizer sentence_splitter (fix_text doc) ents of
                  Inl err \<Rightarrow> Inl err
                | Inr rowss \<Rightarrow>
                    (case write_documents fix_text tokenizer sentence_splitter dataset ids of
                       Inl err \<Rightarrow> Inl err
                     | Inr lines \<Rightarrow> Inr (concat (map render_sentence rowss) @ lines)))))"

definition write_to_conll ::
  "(string \<Rightarrow> string) \<Rightarrow> (string \<Rightarrow> string list \<times> int list) \<Rightarrow>
   (string \<Rightarrow> string list \<times> int list) \<Rightarrow> Entity InternalBioNerDataset \<Rightarrow>
   error + string list \<times> Entity InternalBioNerDataset \<times> int option" where
  "write_to_conll fix_text tokenizer sentence_splitter dataset =
     (case filter_nested_entities dataset of
        Inl err \<Rightarrow> Inl err
      | Inr (dataset', warning) \<Rightarrow>
          (case write_documents fix_text tokenizer sentence_splitter dataset'
                  (map fst (documents dataset')) of
             Inl err \<Rightarrow> Inl err
           | Inr lines \<Rightarrow> Inr (lines, dataset', warning)))"

section \<open>Facts about spans\<close>

lemma spans_intersect_iff:
  "spans_intersect a b =
     (max (start (char_span a)) (start (char_span b)) <
      min (stop (char_span a)) (stop (char_span b)))"
proof -
  let ?l = "max (start (char_span a)) (start (char_span b))"
  let ?u = "min (stop (char_span a)) (stop (char_span b))"
  have "{start (char_span a) ..< stop (char_span a)} \<inter>
        {start (char_span b) ..< stop (char_span b)} = {?l ..< ?u}"
    by auto
  then show ?thesis
    unfolding spans_intersect_def by (simp only: atLeastLessThan_empty_iff2) auto
qed

lemma spans_intersect_valid:
  "valid_entity a \<Longrightarrow> valid_entity b \<Longrightarrow>
   spans_intersect a b =
     (start (char_span a) < stop (char_span b) \<and> start (char_span b) < stop (char_span a))"
  by (auto simp: spans_intersect_iff valid_entity_def)

lemma spans_intersect_sym: "spans_intersect a b = spans_intersect b a"
  by (auto simp: spans_intersect_def)

lemma overlaps_imp_intersect:
  "valid_entity a \<Longrightarrow> valid_entity b \<Longrightarrow> overlaps a b \<Longrightarrow> spans_intersect a b"
  by (auto simp: spans_intersect_valid) (auto simp: overlaps_def valid_entity_def)

section \<open>Claims about entities\<close>

text \<open>
  C3.  \<^verbatim>\<open>overlaps\<close> is meant to hold exactly when the half-open spans intersect, and to be
  symmetric.  The code misses the case where the receiver lies strictly inside the
  argument: for \<open>a = [3,5)\<close> and \<open>b = [0,10)\<close> the spans intersect and
  \<open>overlaps b a\<close> holds, but \<open>overlaps a b\<close> is false.
\<close>

theorem overlaps_nested_asymmetric:
  "spans_intersect
     \<lparr>char_span = \<lparr>start = 3, stop = 5\<rparr>, type = ''X''\<rparr>
     \<lparr>char_span = \<lparr>start = 0, stop = 10\<rparr>, type = ''Y''\<rparr> \<and>
   overlaps
     \<lparr>char_span = \<lparr>start = 0, stop = 10\<rparr>, type = ''Y''\<rparr>
     \<lparr>char_span = \<lparr>start = 3, stop = 5\<rparr>, type = ''X''\<rparr> \<and>
   \<not> overlaps
     \<lparr>char_span = \<lparr>start = 3, stop = 5\<rparr>, type = ''X''\<rparr>
     \<lparr>char_span = \<lparr>start = 0, stop = 10\<rparr>, type = ''Y''\<rparr>"
  by (simp add: spans_intersect_iff overlaps_def)

text \<open>
  C6.  Constructing an entity raises exactly when the span has \<open>end \<le> start\<close>; it
  succeeds for every span with \<open>start < end\<close>, and whatever it returns has
  \<open>start < end\<close>.
\<close>

theorem Entity_init_span_invariant:
  "(Entity_init (s, e) t = Inl AssertionError \<longleftrightarrow> e \<le> s) \<and>
   (s < e \<longrightarrow> Entity_init (s, e) t =
      Inr \<lparr>char_span = \<lparr>start = s, stop = e\<rparr>, type = t\<rparr>) \<and>
   (\<forall>ent. Entity_init (s, e) t = Inr ent \<longrightarrow>
      start (char_span ent) < stop (char_span ent) \<and> valid_entity ent)"
  by (auto simp: Entity_init_def valid_entity_def)

theorem Entity_init_span_invariant_witness:
  "Entity_init (9, 12) ''Disease'' =
     Inr \<lparr>char_span = \<lparr>start = 9, stop = 12\<rparr>, type = ''Disease''\<rparr> \<and>
   Entity_init (12, 12) ''Disease'' = Inl AssertionError \<and>
   Entity_init (12, 9) ''Disease'' = Inl AssertionError \<and>
   valid_entity \<lparr>char_span = \<lparr>start = 9, stop = 12\<rparr>, type = ''Disease''\<rparr>"
  using Entity_init_span_invariant [of 9 12 "''Disease''"]
    Entity_init_span_invariant [of 12 12 "''Disease''"]
    Entity_init_span_invariant [of 12 9 "''Disease''"]
  by simp

section \<open>Facts about dictionaries and merging\<close>

lemma map_of_dict_set: "map_of (dict_set k v d) = (map_of d)(k \<mapsto> v)"
  by (induction d) auto

lemma keys_dict_set: "fst ` set (dict_set k v d) = insert k (fst ` set d)"
  by (induction d) auto

lemma distinct_dict_set: "distinct (map fst d) \<Longrightarrow> distinct (map fst (dict_set k v d))"
proof (induction d)
  case Nil
  then show ?case by simp
next
  case (Cons kv d)
  have "fst ` set (dict_set k v d) = insert k (fst ` set d)"
    by (rule keys_dict_set)
  with Cons show ?case by auto
qed

lemma map_of_dict_update:
  "distinct (map fst other) \<Longrightarrow> map_of (dict_update d other) = map_of d ++ map_of other"
proof (induction other arbitrary: d)
  case Nil
  then show ?case by simp
next
  case (Cons kv other)
  have notin: "map_of other (fst kv) = None"
    using Cons.prems by (simp add: map_of_eq_None_iff)
  have "map_of (dict_update d (kv # other)) = (map_of d)(fst kv \<mapsto> snd kv) ++ map_of other"
    using Cons by (simp add: map_of_dict_set)
  also have "\<dots> = map_of d ++ map_of (kv # other)"
    using notin by (cases kv) (auto simp: map_add_def fun_eq_iff split: option.splits)
  finally show ?case .
qed

lemma keys_dict_update: "fst ` set (dict_update d other) = fst ` set d \<union> fst ` set other"
  by (induction other arbitrary: d) (auto simp: keys_dict_set)

lemma distinct_dict_update:
  "distinct (map fst d) \<Longrightarrow> distinct (map fst (dict_update d other))"
  by (induction other arbitrary: d) (auto simp: distinct_dict_set)

lemma last_binding_snoc:
  "last_binding (ds @ [d]) k = (case map_of d k of Some v \<Rightarrow> Some v | None \<Rightarrow> last_binding ds k)"
  by (induction ds) (auto split: option.splits)

lemma merge_loop_fst:
  "\<forall>ds\<in>set data_sets. distinct (map fst (documents ds)) \<Longrightarrow>
   map_of (fst (merge_loop docs ents data_sets)) k =
     (case last_binding (map documents data_sets) k of Some v \<Rightarrow> Some v | None \<Rightarrow> map_of docs k)"
proof (induction data_sets arbitrary: docs ents)
  case Nil
  then show ?case by simp
next
  case (Cons ds data_sets)
  then show ?case
    by (auto simp: map_of_dict_update map_add_def split: option.splits)
qed

lemma merge_loop_snd:
  "\<forall>ds\<in>set data_sets. distinct (map fst (entities_per_document ds)) \<Longrightarrow>
   map_of (snd (merge_loop docs ents data_sets)) k =
     (case last_binding (map entities_per_document data_sets) k of
        Some v \<Rightarrow> Some v | None \<Rightarrow> map_of ents k)"
proof (induction data_sets arbitrary: docs ents)
  case Nil
  then show ?case by simp
next
  case (Cons ds data_sets)
  then show ?case
    by (auto simp: map_of_dict_update map_add_def split: option.splits)
qed

lemma merge_loop_keys:
  "fst ` set (fst (merge_loop docs ents data_sets)) =
     fst ` set docs \<union> (\<Union>ds\<in>set data_sets. fst ` set (documents ds))"
  "fst ` set (snd (merge_loop docs ents data_sets)) =
     fst ` set ents \<union> (\<Union>ds\<in>set data_sets. fst ` set (entities_per_document ds))"
  by (induction data_sets arbitrary: docs ents) (auto simp: keys_dict_update)

lemma merge_loop_distinct:
  "distinct (map fst docs) \<Longrightarrow> distinct (map fst (fst (merge_loop docs ents data_sets)))"
  "distinct (map fst ents) \<Longrightarrow> distinct (map fst (snd (merge_loop docs ents data_sets)))"
  by (induction data_sets arbitrary: docs ents) (auto simp: distinct_dict_update)

text \<open>
  C9.  \<^verbatim>\<open>merge_datasets\<close> returns the key-wise union of the document mappings and of
  the entity mappings of its inputs; a key bound in several inputs gets the value of
  the last input that binds it (\<open>last_binding\<close>), and the results are dictionaries
  again.
\<close>

theorem merge_datasets_last_write_wins:
  assumes "\<forall>ds\<in>set data_sets. is_dict (documents ds) \<and> is_dict (entities_per_document ds)"
  shows "map_of (documents (merge_datasets data_sets)) k =
           last_binding (map documents data_sets) k \<and>
         map_of (entities_per_document (merge_datasets data_sets)) k =
           last_binding (map entities_per_document data_sets) k \<and>
         fst ` set (documents (merge_datasets data_sets)) =
           (\<Union>ds\<in>set data_sets. fst ` set (documents ds)) \<and>
         fst ` set (entities_per_document (merge_datasets data_sets)) =
           (\<Union>ds\<in>set data_sets. fst ` set (entities_per_document ds)) \<and>
         is_dict (documents (merge_datasets data_sets)) \<and>
         is_dict (entities_per_document (merge_datasets data_sets))"
proof -
  obtain docs ents where loop: "merge_loop [] [] data_sets = (docs, (ents :: (string \<times> 'a list) list))"
    by (cases "merge_loop [] [] data_sets") auto
  then have res: "documents (merge_datasets data_sets) = docs"
      "entities_per_document (merge_datasets data_sets) = ents"
    by (simp_all add: merge_datasets_def)
  have d1: "\<forall>ds\<in>set data_sets. distinct (map fst (documents ds))"
    and d2: "\<forall>ds\<in>set data_sets. distinct (map fst (entities_per_document ds))"
    using assms by (simp_all add: is_dict_def)
  have "map_of docs k = last_binding (map documents data_sets) k"
    using merge_loop_fst [OF d1, of "[]" "[]" k] loop by (simp split: option.splits)
  moreover have "map_of ents k = last_binding (map entities_per_document data_sets) k"
    using merge_loop_snd [OF d2, of "[]" "[]" k] loop by (simp split: option.splits)
  moreover have "fst ` set docs = (\<Union>ds\<in>set data_sets. fst ` set (documents ds))"
    using merge_loop_keys(1) [of "[]" "[]" data_sets] loop by simp
  moreover have "fst ` set ents = (\<Union>ds\<in>set data_sets. fst ` set (entities_per_document ds))"
    using merge_loop_keys(2) [of "[]" "[]" data_sets] loop by simp
  moreover have "is_dict docs"
    using merge_loop_distinct(1) [of "[]" "[]" data_sets] loop by (simp add: is_dict_def)
  moreover have "is_dict ents"
    using merge_loop_distinct(2) [of "[]" "[]" data_sets] loop by (simp add: is_dict_def)
  ultimately show ?thesis
    by (simp only: res)
qed

theorem merge_datasets_last_write_wins_witness:
  "map_of (documents (merge_datasets
      [\<lparr>documents = [(''d1'', ''old''), (''d2'', ''two'')],
        entities_per_document = [(''d1'', [1::nat]), (''d2'', [])]\<rparr>,
       \<lparr>documents = [(''d1'', ''new'')],
        entities_per_document = [(''d1'', [2, 3])]\<rparr>])) ''d1'' = Some ''new'' \<and>
   map_of (entities_per_document (merge_datasets
      [\<lparr>documents = [(''d1'', ''old''), (''d2'', ''two'')],
        entities_per_document = [(''d1'', [1::nat]), (''d2'', [])]\<rparr>,
       \<lparr>documents = [(''d1'', ''new'')],
        entities_per_document = [(''d1'', [2, 3])]\<rparr>])) ''d1'' = Some [2, 3]"
  using merge_datasets_last_write_wins [of
      "[\<lparr>documents = [(''d1'', ''old''), (''d2'', ''two'')],
        entities_per_document = [(''d1'', [1::nat]), (''d2'', [])]\<rparr>,
       \<lparr>documents = [(''d1'', ''new'')],
        entities_per_document = [(''d1'', [2, 3])]\<rparr>]" "''d1''"]
  by (simp add: is_dict_def)

section \<open>Facts about type filtering\<close>

lemma nth_append_upt: "map ((!) (h @ ext)) [length h ..< length h + length ext] = ext"
  by (rule nth_equalityI) (auto simp: nth_append)

lemma map_nth_append_old:
  "\<forall>r\<in>set rs. r < length h \<Longrightarrow> map ((!) (h @ ext)) rs = map ((!) h) rs"
  by (induction rs) (auto simp: nth_append)

lemma upt_shift_Cons: "[n ..< n + Suc k] = n # [Suc n ..< Suc n + k]"
  using upt_conv_Cons [of n "n + Suc k"] by simp

lemma map_entities_char:
  "\<forall>r\<in>set rs. r < length h \<Longrightarrow>
   map_entities m h rs new =
     (h @ List.map_filter (relabel m) (map ((!) h) rs),
      new @ [length h ..< length h + length (List.map_filter (relabel m) (map ((!) h) rs))])"
proof (induction rs arbitrary: h new)
  case Nil
  then show ?case by (simp add: map_filter_simps)
next
  case (Cons r rs)
  show ?case
  proof (cases "m (type (h ! r))")
    case None
    then have "relabel m (h ! r) = None" by (simp add: relabel_def)
    with None Cons show ?thesis by (simp add: map_filter_simps)
  next
    case (Some t)
    let ?e = "(h ! r)\<lparr>type := t\<rparr>"
    let ?h2 = "h @ [?e]"
    have h2: "set_type (h @ [h ! r]) (length h) t = ?h2"
      by (simp add: set_type_def)
    have rel: "relabel m (h ! r) = Some ?e" using Some by (simp add: relabel_def)
    have old: "\<forall>r\<in>set rs. r < length h" using Cons.prems by simp
    then have old2: "\<forall>r\<in>set rs. r < length ?h2" by auto
    have same: "map ((!) ?h2) rs = map ((!) h) rs"
      using old by (rule map_nth_append_old)
    let ?rest = "List.map_filter (relabel m) (map ((!) h) rs)"
    have "map_entities m h (r # rs) new = map_entities m ?h2 rs (new @ [length h])"
      using Some by (simp add: copy_obj_def h2)
    also have "\<dots> = (?h2 @ ?rest, (new @ [length h]) @ [length ?h2 ..< length ?h2 + length ?rest])"
      using Cons.IH [OF old2, of "new @ [length h]"] by (simp only: same)
    also have "\<dots> = (h @ ?e # ?rest, new @ [length h ..< length h + length (?e # ?rest)])"
    proof -
      have "[length h ..< length h + length (?e # ?rest)] =
            length h # [length ?h2 ..< length ?h2 + length ?rest]"
        using upt_shift_Cons [of "length h" "length ?rest"] by simp
      then show ?thesis by simp
    qed
    finally show ?thesis
      using rel by (simp add: map_filter_simps)
  qed
qed

lemma dict_set_fresh: "k \<notin> fst ` set d \<Longrightarrow> dict_set k v d = d @ [(k, v)]"
  by (induction d) auto

lemma map_documents_char:
  assumes "\<forall>item\<in>set items. \<forall>r\<in>set (snd item). r < length h"
    and "distinct (map fst items)"
    and "map_documents m h items mapped = (h', mapped')"
  shows "(\<exists>ext. h' = h @ ext) \<and>
         (\<forall>k. k \<notin> fst ` set items \<longrightarrow> map_of mapped' k = map_of mapped k) \<and>
         (fst ` set items \<inter> fst ` set mapped = {} \<longrightarrow>
            map fst mapped' = map fst mapped @ map fst items) \<and>
         (\<forall>item\<in>set items. \<exists>rs'.
            map_of mapped' (fst item) = Some rs' \<and>
            (\<forall>r\<in>set rs'. length h \<le> r \<and> r < length h') \<and>
            map ((!) h') rs' = List.map_filter (relabel m) (map ((!) h) (snd item)))"
  using assms
proof (induction items arbitrary: h mapped)
  case Nil
  then show ?case by simp
next
  case (Cons item items)
  let ?new = "List.map_filter (relabel m) (map ((!) h) (snd item))"
  let ?h1 = "h @ ?new"
  let ?rs1 = "[length h ..< length h + length ?new]"
  let ?mapped1 = "dict_set (fst item) ?rs1 mapped"
  have alloc: "\<forall>r\<in>set (snd item). r < length h" using Cons.prems(1) by simp
  have step: "map_entities m h (snd item) [] = (?h1, ?rs1)"
    using map_entities_char [OF alloc, of m "[]"] by simp
  then have rest: "map_documents m ?h1 items ?mapped1 = (h', mapped')"
    using Cons.prems(3) by simp
  have alloc1: "\<forall>it\<in>set items. \<forall>r\<in>set (snd it). r < length ?h1"
    using Cons.prems(1) by fastforce
  have dist: "distinct (map fst items)" and fresh: "fst item \<notin> fst ` set items"
    using Cons.prems(2) by auto
  note IH = Cons.IH [OF alloc1 dist rest]
  from IH obtain ext where ext: "h' = ?h1 @ ext" by blast
  have A: "\<exists>ext. h' = h @ ext" using ext by auto
  have B: "\<forall>k. k \<notin> fst ` set (item # items) \<longrightarrow> map_of mapped' k = map_of mapped k"
    using IH by (auto simp: map_of_dict_set)
  have C: "fst ` set (item # items) \<inter> fst ` set mapped = {} \<longrightarrow>
            map fst mapped' = map fst mapped @ map fst (item # items)"
  proof
    assume disj: "fst ` set (item # items) \<inter> fst ` set mapped = {}"
    then have "fst item \<notin> fst ` set mapped" by auto
    then have m1: "?mapped1 = mapped @ [(fst item, ?rs1)]" by (rule dict_set_fresh)
    have "fst ` set items \<inter> fst ` set ?mapped1 = {}"
      using disj fresh by (auto simp: keys_dict_set)
    with IH have "map fst mapped' = map fst ?mapped1 @ map fst items" by blast
    then show "map fst mapped' = map fst mapped @ map fst (item # items)"
      by (simp add: m1)
  qed
  have here: "map_of mapped' (fst item) = Some ?rs1"
    using IH fresh by (simp add: map_of_dict_set)
  have "map ((!) h') ?rs1 = map ((!) ?h1) ?rs1"
    unfolding ext by (rule map_nth_append_old) simp
  also have "\<dots> = ?new" by (rule nth_append_upt)
  finally have val: "map ((!) h') ?rs1 = ?new" .
  have D1: "\<exists>rs'. map_of mapped' (fst item) = Some rs' \<and>
            (\<forall>r\<in>set rs'. length h \<le> r \<and> r < length h') \<and>
            map ((!) h') rs' = ?new"
    using here val ext by (intro exI [of _ ?rs1]) auto
  have D2: "\<forall>it\<in>set items. \<exists>rs'.
            map_of mapped' (fst it) = Some rs' \<and>
            (\<forall>r\<in>set rs'. length h \<le> r \<and> r < length h') \<and>
            map ((!) h') rs' = List.map_filter (relabel m) (map ((!) h) (snd it))"
  proof
    fix it assume it: "it \<in> set items"
    with IH obtain rs' where rs': "map_of mapped' (fst it) = Some rs'"
      "\<forall>r\<in>set rs'. length ?h1 \<le> r \<and> r < length h'"
      "map ((!) h') rs' = List.map_filter (relabel m) (map ((!) ?h1) (snd it))"
      by blast
    have "\<forall>r\<in>set (snd it). r < length h" using Cons.prems(1) it by simp
    then have "map ((!) ?h1) (snd it) = map ((!) h) (snd it)"
      by (rule map_nth_append_old)
    with rs' show "\<exists>rs'. map_of mapped' (fst it) = Some rs' \<and>
            (\<forall>r\<in>set rs'. length h \<le> r \<and> r < length h') \<and>
            map ((!) h') rs' = List.map_filter (relabel m) (map ((!) h) (snd it))"
      by (intro exI [of _ rs']) auto
  qed
  from A B C D1 D2 show ?case by simp
qed

text \<open>
  C8.  \<^verbatim>\<open>filter_and_map_entities\<close> keeps the documents and the document ids; for every
  document the new entity list holds, in input order, exactly the input entities whose
  type is a key of the map, each as a freshly allocated copy (a reference at or beyond
  the old store's end) bearing the mapped type and the same span; entities of unmapped
  types are dropped.  Every object of the old store is unchanged in the new store.
\<close>

theorem filter_and_map_entities_correct:
  assumes "is_dict (entities_per_document dataset)"
    and "refs_allocated h dataset"
    and "filter_and_map_entities h dataset m = (h', dataset')"
  shows "documents dataset' = documents dataset \<and>
         map fst (entities_per_document dataset') = map fst (entities_per_document dataset) \<and>
         (\<forall>item\<in>set (entities_per_document dataset). \<exists>rs'.
            map_of (entities_per_document dataset') (fst item) = Some rs' \<and>
            map ((!) h') rs' = List.map_filter (relabel m) (map ((!) h) (snd item)) \<and>
            (\<forall>r\<in>set rs'. length h \<le> r \<and> r < length h')) \<and>
         length h \<le> length h' \<and> take (length h) h' = h"
proof -
  obtain mapped where md: "map_documents m h (entities_per_document dataset) [] = (h', mapped)"
    and ds': "dataset' = \<lparr>documents = documents dataset, entities_per_document = mapped\<rparr>"
    using assms(3) by (auto simp: filter_and_map_entities_def split: prod.splits)
  have alloc: "\<forall>item\<in>set (entities_per_document dataset). \<forall>r\<in>set (snd item). r < length h"
    using assms(2) by (simp add: refs_allocated_def list_all_iff)
  have dist: "distinct (map fst (entities_per_document dataset))"
    using assms(1) by (simp add: is_dict_def)
  note ch = map_documents_char [OF alloc dist md]
  from ch obtain ext where ext: "h' = h @ ext" by blast
  have "map fst mapped = map fst (entities_per_document dataset)"
    using ch by simp
  moreover have "\<forall>item\<in>set (entities_per_document dataset). \<exists>rs'.
            map_of mapped (fst item) = Some rs' \<and>
            map ((!) h') rs' = List.map_filter (relabel m) (map ((!) h) (snd item)) \<and>
            (\<forall>r\<in>set rs'. length h \<le> r \<and> r < length h')"
    using ch by blast
  ultimately show ?thesis
    using ext by (simp add: ds')
qed

theorem filter_and_map_entities_correct_witness:
  "filter_and_map_entities example_heap example_refs [''A'' \<mapsto> ''X''] =
     (example_heap @
        [\<lparr>char_span = \<lparr>start = 0, stop = 3\<rparr>, type = ''X''\<rparr>,
         \<lparr>char_span = \<lparr>start = 7, stop = 9\<rparr>, type = ''X''\<rparr>],
      \<lparr>documents = [(''d'', ''abc de fg'')], entities_per_document = [(''d'', [3, 4])]\<rparr>) \<and>
   (\<exists>rs'. map_of [(''d'', [3, 4 :: nat])] ''d'' = Some rs' \<and>
      map ((!) (example_heap @
        [\<lparr>char_span = \<lparr>start = 0, stop = 3\<rparr>, type = ''X''\<rparr>,
         \<lparr>char_span = \<lparr>start = 7, stop = 9\<rparr>, type = ''X''\<rparr>])) rs' =
      [\<lparr>char_span = \<lparr>start = 0, stop = 3\<rparr>, type = ''X''\<rparr>,
       \<lparr>char_span = \<lparr>start = 7, stop = 9\<rparr>, type = ''X''\<rparr>]) \<and>
   take (length example_heap)
     (example_heap @
        [\<lparr>char_span = \<lparr>start = 0, stop = 3\<rparr>, type = ''X''\<rparr>,
         \<lparr>char_span = \<lparr>start = 7, stop = 9\<rparr>, type = ''X''\<rparr>]) = example_heap"
proof -
  let ?h' = "example_heap @
        [\<lparr>char_span = \<lparr>start = 0, stop = 3\<rparr>, type = ''X''\<rparr>,
         \<lparr>char_span = \<lparr>start = 7, stop = 9\<rparr>, type = ''X''\<rparr>]"
  let ?ds' = "\<lparr>documents = [(''d'', ''abc de fg'')],
               entities_per_document = [(''d'', [3, 4 :: nat])]\<rparr>"
  have run: "filter_and_map_entities example_heap example_refs [''A'' \<mapsto> ''X''] = (?h', ?ds')"
    by (simp add: filter_and_map_entities_def example_heap_def example_refs_def
        copy_obj_def set_type_def)
  have dict: "is_dict (entities_per_document example_refs)"
    by (simp add: is_dict_def example_refs_def)
  have alloc: "refs_allocated example_heap example_refs"
    by (simp add: refs_allocated_def example_heap_def example_refs_def)
  have rel: "List.map_filter (relabel [''A'' \<mapsto> ''X'']) (map ((!) example_heap) [0, 1, 2]) =
      [\<lparr>char_span = \<lparr>start = 0, stop = 3\<rparr>, type = ''X''\<rparr>,
       \<lparr>char_span = \<lparr>start = 7, stop = 9\<rparr>, type = ''X''\<rparr>]"
    by (simp add: map_filter_simps relabel_def example_heap_def)
  show ?thesis
    using filter_and_map_entities_correct [OF dict alloc run] run rel
    by (simp add: example_refs_def)
qed

section \<open>Facts about the conflict resolver\<close>

lemma objective_le_refl: "objective_le a a"
  by (simp add: objective_le_def)

lemma objective_le_trans: "objective_le a b \<Longrightarrow> objective_le b c \<Longrightarrow> objective_le a c"
  by (auto simp: objective_le_def)

lemma objective_le_add:
  "objective_le (c, t) (c', t') \<Longrightarrow> objective_le (c + 1, t + l) (c' + 1, t' + l)"
  by (auto simp: objective_le_def)

lemma find_compatible_nat:
  assumes "position_end (dp ! 0) \<le> s" and "n < length dp"
  shows "\<exists>j\<le>n. find_compatible dp (int n) s = Inr (int j) \<and> position_end (dp ! j) \<le> s \<and>
           (\<forall>k. j < k \<and> k \<le> n \<longrightarrow> s < position_end (dp ! k))"
  using assms(2)
proof (induction n)
  case 0
  then have "find_compatible dp (int 0) s = Inr (int 0)"
    using assms(1) by (subst find_compatible.simps) (simp add: py_in_bounds_def py_nth_def)
  with assms(1) show ?case by auto
next
  case (Suc n)
  have inb: "py_in_bounds dp (int (Suc n))" using Suc.prems by (simp add: py_in_bounds_def)
  have "nat (int (Suc n)) = Suc n" by (rule nat_int)
  then have nth: "py_nth dp (int (Suc n)) = dp ! Suc n" by (simp only: py_nth_def) simp
  show ?case
  proof (cases "s < position_end (dp ! Suc n)")
    case True
    have "find_compatible dp (int (Suc n)) s = find_compatible dp (int (Suc n) - 1) s"
      using inb nth True by (subst find_compatible.simps) simp
    then have eq: "find_compatible dp (int (Suc n)) s = find_compatible dp (int n) s" by simp
    from Suc obtain j where j: "j \<le> n" "find_compatible dp (int n) s = Inr (int j)"
      "position_end (dp ! j) \<le> s" "\<forall>k. j < k \<and> k \<le> n \<longrightarrow> s < position_end (dp ! k)"
      by auto
    have "\<forall>k. j < k \<and> k \<le> Suc n \<longrightarrow> s < position_end (dp ! k)"
      using j(4) True by (auto simp: le_Suc_eq)
    with j eq show ?thesis by (intro exI [of _ j]) auto
  next
    case False
    have "find_compatible dp (int (Suc n)) s = Inr (int (Suc n))"
      using inb nth False by (subst find_compatible.simps) simp
    with False show ?thesis by (intro exI [of _ "Suc n"]) auto
  qed
qed

lemma dp_step_char:
  assumes "dp \<noteq> []" and "position_end (dp ! 0) \<le> start (char_span e)"
    and "span_len (char_span e) \<le> ssize_max"
  shows "\<exists>i<length dp. position_end (dp ! i) \<le> start (char_span e) \<and>
           (\<forall>k. i < k \<and> k < length dp \<longrightarrow> start (char_span e) < position_end (dp ! k)) \<and>
           dp_step dp e =
             Inr (dp @ [if objective_le (row_objective (new_row (dp ! i) e)) (row_objective (last dp))
                        then last dp else new_row (dp ! i) e])"
proof -
  have n: "length dp - 1 < length dp" using assms(1) by simp
  from find_compatible_nat [OF assms(2) n] obtain j where j: "j \<le> length dp - 1"
    "find_compatible dp (int (length dp - 1)) (start (char_span e)) = Inr (int j)"
    "position_end (dp ! j) \<le> start (char_span e)"
    "\<forall>k. j < k \<and> k \<le> length dp - 1 \<longrightarrow> start (char_span e) < position_end (dp ! k)"
    by blast
  have idx: "int (length dp) - 1 = int (length dp - 1)" using assms(1) by (cases dp) auto
  have nth: "py_nth dp (int j) = dp ! j" by (simp add: py_nth_def)
  have len: "range_len (char_span e) = Inr (span_len (char_span e))"
    using assms(3) by (simp add: range_len_def)
  have "dp_step dp e =
             Inr (dp @ [if objective_le (row_objective (new_row (dp ! j) e)) (row_objective (last dp))
                        then last dp else new_row (dp ! j) e])"
    unfolding dp_step_def idx j(2)
    by (auto simp: len nth objective_le_def row_objective_def new_row_def num_entities_def
        sum_lengths_def)
  moreover have "\<forall>k. j < k \<and> k < length dp \<longrightarrow> start (char_span e) < position_end (dp ! k)"
    using j(4) by auto
  moreover have "j < length dp" using j(1) n by simp
  ultimately show ?thesis using j(3) by (intro exI [of _ j]) simp
qed

lemma objective_le_total: "\<not> objective_le a b \<Longrightarrow> objective_le b a"
  by (auto simp: objective_le_def)

lemma independent_remove1:
  "independent T \<Longrightarrow> independent (remove1 e T)"
proof (induction T)
  case Nil
  then show ?case by simp
next
  case (Cons x T)
  have "set (remove1 e T) \<subseteq> set T" by (rule set_remove1_subset)
  with Cons show ?case by (auto simp: list_all_iff)
qed

lemma independent_others:
  "independent T \<Longrightarrow> e \<in> set T \<Longrightarrow> \<forall>t\<in>set (remove1 e T). \<not> spans_intersect e t"
proof (induction T)
  case Nil
  then show ?case by simp
next
  case (Cons x T)
  show ?case
  proof (cases "x = e")
    case True
    with Cons.prems show ?thesis by (simp add: list_all_iff)
  next
    case False
    with Cons.prems have eT: "e \<in> set T" by simp
    have "\<not> spans_intersect e x"
      using Cons.prems(1) eT by (simp add: list_all_iff spans_intersect_sym [of e x])
    moreover have "\<forall>t\<in>set (remove1 e T). \<not> spans_intersect e t"
      using Cons eT by simp
    ultimately show ?thesis using False by simp
  qed
qed

lemma objective_remove1:
  assumes "e \<in> set T"
  shows "objective T = (fst (objective (remove1 e T)) + 1,
                        snd (objective (remove1 e T)) + span_len (char_span e))"
proof -
  have "length T = Suc (length (remove1 e T))"
    using assms by (simp add: length_remove1) (cases T, auto)
  moreover have "total_len T = span_len (char_span e) + total_len (remove1 e T)"
    unfolding total_len_def using assms by (rule sum_list_map_remove1)
  ultimately show ?thesis by (simp add: objective_def)
qed

lemma mset_sub_snoc_remove1:
  "mset T \<subseteq># mset (xs @ [e]) \<Longrightarrow> mset (remove1 e T) \<subseteq># mset xs"
  by (simp add: subset_eq_diff_conv)

lemma mset_sub_snoc_notin:
  "mset T \<subseteq># mset (xs @ [e]) \<Longrightarrow> e \<notin> set T \<Longrightarrow> mset T \<subseteq># mset xs"
  using mset_sub_snoc_remove1 [of T xs e] by (simp add: remove1_idem)

lemma disjoint_before:
  assumes "valid_entity t" and "stop (char_span t) \<le> stop (char_span e)"
    and "\<not> spans_intersect e t" and "valid_entity e"
  shows "stop (char_span t) \<le> start (char_span e)"
  using assms by (auto simp: spans_intersect_valid valid_entity_def)

lemma before_disjoint:
  assumes "stop (char_span t) \<le> start (char_span e)"
  shows "\<not> spans_intersect e t"
  using assms by (auto simp: spans_intersect_iff)

lemma dp_step_inv:
  assumes inv: "dp_inv dp xs"
    and e0: "0 \<le> start (char_span e)" and ev: "valid_entity e"
    and el: "span_len (char_span e) \<le> ssize_max"
    and xs: "\<forall>x\<in>set xs. valid_entity x \<and> stop (char_span x) \<le> stop (char_span e)"
  shows "\<exists>dp'. dp_step dp e = Inr dp' \<and> dp_inv dp' (xs @ [e])"
proof -
  from inv have ne: "dp \<noteq> []" and p0: "position_end (dp ! 0) = 0"
    and pe: "\<forall>r\<in>set dp. position_end r = 0 \<or> (\<exists>x\<in>set xs. position_end r = stop (char_span x))"
    and mono: "\<forall>r\<in>set dp. objective_le (row_objective r) (row_objective (last dp))"
    and ach: "\<forall>r\<in>set dp. \<exists>S. mset S \<subseteq># mset xs \<and> independent S \<and> objective S = row_objective r \<and>
         (\<forall>s\<in>set S. stop (char_span s) \<le> position_end r)"
    unfolding dp_inv_def by blast+
  from inv have ub: "\<And>B T j. mset T \<subseteq># mset xs \<Longrightarrow> independent T \<Longrightarrow>
         \<forall>t\<in>set T. stop (char_span t) \<le> B \<Longrightarrow> j < length dp \<Longrightarrow> position_end (dp ! j) \<le> B \<Longrightarrow>
         \<forall>k. j < k \<and> k < length dp \<longrightarrow> B < position_end (dp ! k) \<Longrightarrow>
         objective_le (objective T) (row_objective (dp ! j))"
    unfolding dp_inv_def by blast
  have se: "start (char_span e) < stop (char_span e)" using ev by (simp add: valid_entity_def)
  have p0le: "position_end (dp ! 0) \<le> start (char_span e)" using p0 e0 by simp
  from dp_step_char [OF ne p0le el] obtain i where i: "i < length dp"
    "position_end (dp ! i) \<le> start (char_span e)"
    "\<forall>k. i < k \<and> k < length dp \<longrightarrow> start (char_span e) < position_end (dp ! k)"
    and step: "dp_step dp e =
       Inr (dp @ [if objective_le (row_objective (new_row (dp ! i) e)) (row_objective (last dp))
                  then last dp else new_row (dp ! i) e])"
    by blast
  define r where "r = (if objective_le (row_objective (new_row (dp ! i) e)) (row_objective (last dp))
                  then last dp else new_row (dp ! i) e)"
  have r_cases: "r = last dp \<or> r = new_row (dp ! i) e" by (simp add: r_def)
  have last_in: "last dp \<in> set dp" using ne by simp
  have dpi_in: "dp ! i \<in> set dp" using i(1) by simp
  have pe_le: "\<forall>r'\<in>set dp. position_end r' \<le> stop (char_span e)"
    using pe xs e0 se by fastforce
  have r_pe_le: "position_end r \<le> stop (char_span e)"
    using r_cases pe_le last_in by (auto simp: new_row_def position_end_def)
  have r_ge_last: "objective_le (row_objective (last dp)) (row_objective r)"
    by (auto simp: r_def objective_le_refl objective_le_total)
  have r_ge_new: "objective_le (row_objective (new_row (dp ! i) e)) (row_objective r)"
    by (auto simp: r_def objective_le_refl)
  have new_obj: "row_objective (new_row (dp ! i) e) =
      (fst (row_objective (dp ! i)) + 1, snd (row_objective (dp ! i)) + span_len (char_span e))"
    by (simp add: row_objective_def new_row_def num_entities_def sum_lengths_def)
  have nth_old: "\<And>k. k < length dp \<Longrightarrow> (dp @ [r]) ! k = dp ! k" by (simp add: nth_append)
  have nth_new: "(dp @ [r]) ! length dp = r" by simp
  have I1: "dp @ [r] \<noteq> [] \<and> position_end ((dp @ [r]) ! 0) = 0"
    using ne p0 by (simp add: nth_append)
  have I2: "\<forall>r'\<in>set (dp @ [r]). position_end r' = 0 \<or>
      (\<exists>x\<in>set (xs @ [e]). position_end r' = stop (char_span x))"
  proof
    fix r' assume "r' \<in> set (dp @ [r])"
    then consider "r' \<in> set dp" | "r' = new_row (dp ! i) e"
      using r_cases last_in by auto
    then show "position_end r' = 0 \<or> (\<exists>x\<in>set (xs @ [e]). position_end r' = stop (char_span x))"
    proof cases
      case 1
      with pe show ?thesis by auto
    next
      case 2
      then show ?thesis by (simp add: new_row_def position_end_def)
    qed
  qed
  have I3: "\<forall>r'\<in>set (dp @ [r]). objective_le (row_objective r') (row_objective (last (dp @ [r])))"
    using mono r_ge_last by (auto intro: objective_le_trans objective_le_refl)
  have ach_old: "\<And>r'. r' \<in> set dp \<Longrightarrow>
      \<exists>S. mset S \<subseteq># mset (xs @ [e]) \<and> independent S \<and> objective S = row_objective r' \<and>
         (\<forall>s\<in>set S. stop (char_span s) \<le> position_end r')"
  proof -
    fix r' assume "r' \<in> set dp"
    with ach obtain S where S: "mset S \<subseteq># mset xs" "independent S" "objective S = row_objective r'"
      "\<forall>s\<in>set S. stop (char_span s) \<le> position_end r'" by blast
    have "mset xs \<subseteq># mset (xs @ [e])" by simp
    with S(1) have "mset S \<subseteq># mset (xs @ [e])"
      by (rule subset_mset.order_trans)
    with S show "\<exists>S. mset S \<subseteq># mset (xs @ [e]) \<and> independent S \<and> objective S = row_objective r' \<and>
         (\<forall>s\<in>set S. stop (char_span s) \<le> position_end r')" by blast
  qed
  have ach_new: "\<exists>S. mset S \<subseteq># mset (xs @ [e]) \<and> independent S \<and>
         objective S = row_objective (new_row (dp ! i) e) \<and>
         (\<forall>s\<in>set S. stop (char_span s) \<le> position_end (new_row (dp ! i) e))"
  proof -
    from ach dpi_in obtain S where S: "mset S \<subseteq># mset xs" "independent S"
      "objective S = row_objective (dp ! i)"
      "\<forall>s\<in>set S. stop (char_span s) \<le> position_end (dp ! i)" by blast
    have disj: "list_all (\<lambda>y. \<not> spans_intersect e y) S"
      using S(4) i(2) by (auto simp: list_all_iff intro!: before_disjoint)
    have "mset (e # S) \<subseteq># mset (xs @ [e])" using S(1) by simp
    moreover have "independent (e # S)" using disj S(2) by simp
    moreover have "objective (e # S) = row_objective (new_row (dp ! i) e)"
      using S(3) by (simp add: new_obj [symmetric] objective_def total_len_def row_objective_def
          new_row_def num_entities_def sum_lengths_def)
    moreover have "\<forall>s\<in>set (e # S). stop (char_span s) \<le> position_end (new_row (dp ! i) e)"
      using S(4) i(2) se by (auto simp: new_row_def position_end_def)
    ultimately show ?thesis by blast
  qed
  have I4: "\<forall>r'\<in>set (dp @ [r]). \<exists>S. mset S \<subseteq># mset (xs @ [e]) \<and> independent S \<and>
         objective S = row_objective r' \<and> (\<forall>s\<in>set S. stop (char_span s) \<le> position_end r')"
  proof
    fix r' assume "r' \<in> set (dp @ [r])"
    then consider "r' \<in> set dp" | "r' = new_row (dp ! i) e"
      using r_cases last_in by auto
    then show "\<exists>S. mset S \<subseteq># mset (xs @ [e]) \<and> independent S \<and>
         objective S = row_objective r' \<and> (\<forall>s\<in>set S. stop (char_span s) \<le> position_end r')"
    proof cases
      case 1
      then show ?thesis by (rule ach_old)
    next
      case 2
      then show ?thesis using ach_new by simp
    qed
  qed
  have I5: "\<forall>B T j. mset T \<subseteq># mset (xs @ [e]) \<and> independent T \<and>
         (\<forall>t\<in>set T. stop (char_span t) \<le> B) \<and>
         j < length (dp @ [r]) \<and> position_end ((dp @ [r]) ! j) \<le> B \<and>
         (\<forall>k. j < k \<and> k < length (dp @ [r]) \<longrightarrow> B < position_end ((dp @ [r]) ! k)) \<longrightarrow>
         objective_le (objective T) (row_objective ((dp @ [r]) ! j))"
  proof (intro allI impI, elim conjE)
    fix B T j
    assume T: "mset T \<subseteq># mset (xs @ [e])" "independent T" "\<forall>t\<in>set T. stop (char_span t) \<le> B"
      and j: "j < length (dp @ [r])" "position_end ((dp @ [r]) ! j) \<le> B"
      and above: "\<forall>k. j < k \<and> k < length (dp @ [r]) \<longrightarrow> B < position_end ((dp @ [r]) ! k)"
    show "objective_le (objective T) (row_objective ((dp @ [r]) ! j))"
    proof (cases "j < length dp")
      case True
      have "B < position_end r" using above True nth_new by auto
      then have "B < stop (char_span e)" using r_pe_le by simp
      then have "e \<notin> set T" using T(3) by auto
      then have T': "mset T \<subseteq># mset xs" using T(1) by (rule mset_sub_snoc_notin [rotated])
      have "\<forall>k. j < k \<and> k < length dp \<longrightarrow> B < position_end (dp ! k)"
        using above by (auto simp: nth_append)
      moreover have "position_end (dp ! j) \<le> B" using j(2) True by (simp add: nth_append)
      ultimately have "objective_le (objective T) (row_objective (dp ! j))"
        using ub [OF T' T(2) T(3) True] by blast
      then show ?thesis using True by (simp add: nth_append)
    next
      case False
      then have jeq: "j = length dp" using j(1) by simp
      have goal_r: "objective_le (objective T) (row_objective r)"
      proof (cases "e \<in> set T")
        case False
        then have T': "mset T \<subseteq># mset xs" using T(1) by (rule mset_sub_snoc_notin [rotated])
        define B' where "B' = max B (position_end (last dp))"
        have l: "length dp - 1 < length dp" using ne by simp
        have lastnth: "dp ! (length dp - 1) = last dp" using ne by (simp add: last_conv_nth)
        have "objective_le (objective T) (row_objective (dp ! (length dp - 1)))"
        proof (rule ub [OF T' T(2) _ l, of B'])
          show "\<forall>t\<in>set T. stop (char_span t) \<le> B'" using T(3) by (auto simp: B'_def)
          show "position_end (dp ! (length dp - 1)) \<le> B'" unfolding lastnth B'_def by simp
          show "\<forall>k. length dp - 1 < k \<and> k < length dp \<longrightarrow> B' < position_end (dp ! k)" by auto
        qed
        then show ?thesis using r_ge_last lastnth by (auto intro: objective_le_trans)
      next
        case True
        let ?T' = "remove1 e T"
        have T': "mset ?T' \<subseteq># mset xs" using T(1) by (rule mset_sub_snoc_remove1)
        have ind': "independent ?T'" using T(2) by (rule independent_remove1)
        have "set_mset (mset ?T') \<subseteq> set_mset (mset xs)" using T' by (rule set_mset_mono)
        then have sub: "set ?T' \<subseteq> set xs" by (simp only: set_mset_mset)
        have before: "\<forall>t\<in>set ?T'. stop (char_span t) \<le> start (char_span e)"
        proof
          fix t assume t: "t \<in> set ?T'"
          then have "t \<in> set xs" using sub by auto
          then have "valid_entity t" "stop (char_span t) \<le> stop (char_span e)" using xs by auto
          moreover have "\<not> spans_intersect e t" using independent_others [OF T(2) True] t by simp
          ultimately show "stop (char_span t) \<le> start (char_span e)"
            using ev by (intro disjoint_before)
        qed
        have "objective_le (objective ?T') (row_objective (dp ! i))"
          using ub [OF T' ind' before i(1) i(2) i(3)] .
        then have "objective_le (fst (objective ?T') + 1, snd (objective ?T') + span_len (char_span e))
            (fst (row_objective (dp ! i)) + 1, snd (row_objective (dp ! i)) + span_len (char_span e))"
          using objective_le_add [of "fst (objective ?T')" "snd (objective ?T')"
              "fst (row_objective (dp ! i))" "snd (row_objective (dp ! i))"] by simp
        then have "objective_le (objective T) (row_objective (new_row (dp ! i) e))"
          by (simp only: objective_remove1 [OF True] new_obj)
        then show ?thesis using r_ge_new by (rule objective_le_trans)
      qed
      then show ?thesis by (simp add: jeq)
    qed
  qed
  have "dp_inv (dp @ [r]) (xs @ [e])"
    unfolding dp_inv_def using I1 I2 I3 I4 I5 by blast
  moreover have "dp_step dp e = Inr (dp @ [r])" using step by (simp add: r_def)
  ultimately show ?thesis by blast
qed

lemma dp_loop_inv:
  assumes "dp_inv dp xs"
    and "sorted (map (\<lambda>x. stop (char_span x)) es)"
    and "\<forall>e\<in>set es. 0 \<le> start (char_span e) \<and> valid_entity e \<and>
           span_len (char_span e) \<le> ssize_max"
    and "\<forall>x\<in>set xs. valid_entity x \<and> (\<forall>e\<in>set es. stop (char_span x) \<le> stop (char_span e))"
  shows "\<exists>dp'. dp_loop dp es = Inr dp' \<and> dp_inv dp' (xs @ es)"
  using assms
proof (induction es arbitrary: dp xs)
  case Nil
  then show ?case by simp
next
  case (Cons e es)
  have e: "0 \<le> start (char_span e)" "valid_entity e" "span_len (char_span e) \<le> ssize_max"
    using Cons.prems(3) by auto
  have xs: "\<forall>x\<in>set xs. valid_entity x \<and> stop (char_span x) \<le> stop (char_span e)"
    using Cons.prems(4) by auto
  from dp_step_inv [OF Cons.prems(1) e xs] obtain dp1 where
    dp1: "dp_step dp e = Inr dp1" "dp_inv dp1 (xs @ [e])" by blast
  have srt: "sorted (map (\<lambda>x. stop (char_span x)) es)"
    and le: "\<forall>e'\<in>set es. stop (char_span e) \<le> stop (char_span e')"
    using Cons.prems(2) by auto
  have es: "\<forall>e\<in>set es. 0 \<le> start (char_span e) \<and> valid_entity e \<and>
      span_len (char_span e) \<le> ssize_max"
    using Cons.prems(3) by auto
  have xs1: "\<forall>x\<in>set (xs @ [e]). valid_entity x \<and>
      (\<forall>e'\<in>set es. stop (char_span x) \<le> stop (char_span e'))"
    using Cons.prems(4) e le by auto
  from Cons.IH [OF dp1(2) srt es xs1] obtain dp' where
    "dp_loop dp1 es = Inr dp'" "dp_inv dp' ((xs @ [e]) @ es)" by blast
  with dp1(1) show ?case by simp
qed

lemma dp_inv_init: "dp_inv [(0, 0, 0, None)] []"
  unfolding dp_inv_def
  by (auto simp: position_end_def objective_le_def row_objective_def objective_def
      total_len_def num_entities_def sum_lengths_def)

lemma dp_table_inv:
  assumes "\<forall>e\<in>set entities. 0 \<le> start (char_span e) \<and> valid_entity e \<and>
             span_len (char_span e) \<le> ssize_max"
  shows "\<exists>dp. dp_table entities = Inr dp \<and>
           dp_inv dp (sort_key (\<lambda>x. stop (char_span x)) entities)"
proof -
  let ?es = "sort_key (\<lambda>x. stop (char_span x)) entities"
  have "sorted (map (\<lambda>x. stop (char_span x)) ?es)" by (rule sorted_sort_key)
  moreover have "\<forall>e\<in>set ?es. 0 \<le> start (char_span e) \<and> valid_entity e \<and>
      span_len (char_span e) \<le> ssize_max"
    using assms by simp
  ultimately have "\<exists>dp'. dp_loop [(0, 0, 0, None)] ?es = Inr dp' \<and> dp_inv dp' ([] @ ?es)"
    using dp_inv_init by (intro dp_loop_inv) auto
  then show ?thesis by (simp add: dp_table_def)
qed


text \<open>
  The resolver needs non-negative starts: with a negative start the backward search
  passes row 0, wraps around the table and leaves it.
\<close>

lemma filter_nested_document_negative_start:
  assumes "start (char_span e) < 0"
  shows "filter_nested_document [e] = Inl IndexError"
proof -
  have "find_compatible [(0, 0, 0, None)] (- 2) (start (char_span e)) = Inl IndexError"
    by (subst find_compatible.simps) (simp add: py_in_bounds_def)
  then have "find_compatible [(0, 0, 0, None)] (- 1) (start (char_span e)) = Inl IndexError"
    using assms
    by (subst find_compatible.simps) (simp add: py_in_bounds_def py_nth_def position_end_def)
  then have "find_compatible [(0, 0, 0, None)] 0 (start (char_span e)) = Inl IndexError"
    using assms
    by (subst find_compatible.simps) (simp add: py_in_bounds_def py_nth_def position_end_def)
  then show ?thesis
    by (simp add: filter_nested_document_def dp_table_def dp_step_def)
qed

text \<open>
  It also needs lengths that \<^verbatim>\<open>len\<close> accepts: a span of \<open>2 ^ 63\<close> characters raises
  \<^verbatim>\<open>OverflowError\<close> when the first row for it is built.
\<close>

lemma filter_nested_document_overflow:
  "filter_nested_document [\<lparr>char_span = \<lparr>start = 0, stop = 2 ^ 63\<rparr>, type = t\<rparr>] =
     Inl OverflowError"
proof -
  have "find_compatible [(0, 0, 0, None)] 0 0 = Inr 0"
    by (subst find_compatible.simps) (simp add: py_in_bounds_def py_nth_def position_end_def)
  then show ?thesis
    by (simp add: filter_nested_document_def dp_table_def dp_step_def py_nth_def
        num_entities_def range_len_def span_len_def ssize_max_def)
qed

lemmas eval_defs = filter_nested_document_def dp_table_def dp_step_def Ent_def py_in_bounds_def
        py_nth_def position_end_def num_entities_def sum_lengths_def last_entity_def range_len_def span_len_def ssize_max_def

text \<open>
  C1.  The output of the resolver is meant to be pairwise non-overlapping.  The
  reconstruction lowers \<open>p\<close> by the length of the entity it takes instead of setting it
  to the entity's start, so after a gap between two taken entities \<open>p\<close> is too large:
  for \<open>[(0,3,X), (1,5,Y), (10,12,Z)]\<close> the output keeps all three entities, and
  \<open>(0,3,X)\<close> and \<open>(1,5,Y)\<close> overlap.  No warning is issued, since the count is unchanged.
\<close>

theorem filter_nested_output_overlaps:
  "filter_nested_document [Ent 0 3 ''X'', Ent 1 5 ''Y'', Ent 10 12 ''Z''] =
     Inr [Ent 10 12 ''Z'', Ent 1 5 ''Y'', Ent 0 3 ''X''] \<and>
   filter_nested_entities
     \<lparr>documents = [(''d'', ''abcdefghijkl'')],
      entities_per_document = [(''d'', [Ent 0 3 ''X'', Ent 1 5 ''Y'', Ent 10 12 ''Z''])]\<rparr> =
   Inr (\<lparr>documents = [(''d'', ''abcdefghijkl'')],
         entities_per_document = [(''d'', [Ent 10 12 ''Z'', Ent 1 5 ''Y'', Ent 0 3 ''X''])]\<rparr>,
        None) \<and>
   spans_intersect (Ent 1 5 ''Y'') (Ent 0 3 ''X'') \<and>
   overlaps (Ent 1 5 ''Y'') (Ent 0 3 ''X'') \<and> overlaps (Ent 0 3 ''X'') (Ent 1 5 ''Y'') \<and>
   Ent 1 5 ''Y'' \<noteq> Ent 0 3 ''X''"
proof -
  have run: "filter_nested_document [Ent 0 3 ''X'', Ent 1 5 ''Y'', Ent 10 12 ''Z''] =
     Inr [Ent 10 12 ''Z'', Ent 1 5 ''Y'', Ent 0 3 ''X'']"
    by (simp add: eval_defs)
  have all: "filter_nested_entities
     \<lparr>documents = [(''d'', ''abcdefghijkl'')],
      entities_per_document = [(''d'', [Ent 0 3 ''X'', Ent 1 5 ''Y'', Ent 10 12 ''Z''])]\<rparr> =
   Inr (\<lparr>documents = [(''d'', ''abcdefghijkl'')],
         entities_per_document = [(''d'', [Ent 10 12 ''Z'', Ent 1 5 ''Y'', Ent 0 3 ''X''])]\<rparr>,
        None)"
    by (simp add: filter_nested_entities_def run count_entities_def)
  have ov: "spans_intersect (Ent 1 5 ''Y'') (Ent 0 3 ''X'')"
      "overlaps (Ent 1 5 ''Y'') (Ent 0 3 ''X'')" "overlaps (Ent 0 3 ''X'') (Ent 1 5 ''Y'')"
      "Ent 1 5 ''Y'' \<noteq> Ent 0 3 ''X''"
    by (simp_all add: spans_intersect_iff overlaps_def Ent_def)
  from run all ov show ?thesis by (intro conjI)
qed





lemma dict_set_same:
  "\<forall>item\<in>set d. snd item = v \<Longrightarrow> k \<in> fst ` set d \<Longrightarrow> dict_set k v d = d"
  by (induction d) auto

lemma filter_nested_document_empty: "filter_nested_document [] = Inr []"
  by (simp add: eval_defs)

lemma filter_nested_loop_empty:
  "\<forall>item\<in>set d. snd item = [] \<Longrightarrow> set items \<subseteq> set d \<Longrightarrow> filter_nested_loop d items = Inr d"
proof (induction items)
  case Nil
  then show ?case by simp
next
  case (Cons item items)
  then have "snd item = []" "fst item \<in> fst ` set d" by auto
  with Cons show ?case
    by (simp add: filter_nested_document_empty dict_set_same)
qed

lemma find_compatible_empty: "find_compatible [] i s = Inl IndexError"
  by (subst find_compatible.simps) (simp add: py_in_bounds_def)

lemma dp_step_entities:
  assumes "dp_step dp e = Inr dp'"
    and "\<forall>r\<in>set dp. \<forall>x. last_entity r = Some x \<longrightarrow> x \<in> A" and "e \<in> A"
  shows "\<forall>r\<in>set dp'. \<forall>x. last_entity r = Some x \<longrightarrow> x \<in> A"
proof -
  have "dp_step [] e = Inl IndexError"
    by (simp only: dp_step_def find_compatible_empty sum.case)
  with assms(1) have ne: "dp \<noteq> []" by auto
  then have l: "last dp \<in> set dp" by simp
  obtain i where i: "find_compatible dp (int (length dp) - 1) (start (char_span e)) = Inr i"
    using assms(1) unfolding dp_step_def
    by (cases "find_compatible dp (int (length dp) - 1) (start (char_span e))") simp_all
  have "dp' = dp @ [last dp] \<or> (\<exists>row. dp' = dp @ [row] \<and> last_entity row = Some e)"
    using assms(1) unfolding dp_step_def i sum.case
    by (cases "range_len (char_span e)") (auto simp: last_entity_def split: if_splits)
  then show ?thesis
    using assms(2,3) l by auto
qed

lemma dp_loop_entities:
  assumes "dp_loop dp es = Inr dp'"
    and "\<forall>r\<in>set dp. \<forall>x. last_entity r = Some x \<longrightarrow> x \<in> A" and "set es \<subseteq> A"
  shows "\<forall>r\<in>set dp'. \<forall>x. last_entity r = Some x \<longrightarrow> x \<in> A"
  using assms
proof (induction es arbitrary: dp)
  case Nil
  then show ?case by simp
next
  case (Cons e es)
  from Cons.prems(1) obtain dp1 where dp1: "dp_step dp e = Inr dp1" "dp_loop dp1 es = Inr dp'"
    by (auto split: sum.splits)
  have "\<forall>r\<in>set dp1. \<forall>x. last_entity r = Some x \<longrightarrow> x \<in> A"
    using dp_step_entities [OF dp1(1) Cons.prems(2)] Cons.prems(3) by simp
  then show ?case using Cons.IH [OF dp1(2)] Cons.prems(3) by simp
qed

lemma backtrack_total:
  assumes "\<forall>r\<in>set rows. \<forall>x. last_entity r = Some x \<longrightarrow> span_len (char_span x) \<le> ssize_max"
  shows "\<exists>out. backtrack rows p acc = Inr out"
  using assms
proof (induction rows arbitrary: p acc)
  case Nil
  then show ?case by simp
next
  case (Cons r rows)
  show ?case
  proof (cases "last_entity r")
    case None
    then show ?thesis by simp
  next
    case (Some x)
    then have "range_len (char_span x) = Inr (span_len (char_span x))"
      using Cons.prems by (simp add: range_len_def)
    moreover have "\<exists>out. backtrack rows p' acc' = Inr out" for p' acc'
      using Cons by simp
    ultimately show ?thesis using Some by simp
  qed
qed

lemma filter_nested_document_total:
  assumes "\<forall>e\<in>set ents. 0 \<le> start (char_span e) \<and> valid_entity e \<and>
             span_len (char_span e) \<le> ssize_max"
  shows "\<exists>out. filter_nested_document ents = Inr out"
proof -
  from dp_table_inv [OF assms] obtain dp where dp: "dp_table ents = Inr dp" by blast
  have "\<forall>r\<in>set dp. \<forall>x. last_entity r = Some x \<longrightarrow> x \<in> set ents"
    using dp_loop_entities [OF dp [unfolded dp_table_def], of "set ents"]
    by (simp add: last_entity_def)
  then have "\<forall>r\<in>set (rev dp). \<forall>x. last_entity r = Some x \<longrightarrow>
      span_len (char_span x) \<le> ssize_max"
    using assms by auto
  from backtrack_total [OF this] dp show ?thesis
    by (simp add: filter_nested_document_def)
qed

lemma filter_nested_loop_total:
  assumes "\<forall>item\<in>set items. \<forall>e\<in>set (snd item). 0 \<le> start (char_span e) \<and> valid_entity e \<and>
             span_len (char_span e) \<le> ssize_max"
  shows "\<exists>d'. filter_nested_loop d items = Inr d'"
  using assms
proof (induction items arbitrary: d)
  case Nil
  then show ?case by simp
next
  case (Cons item items)
  have "\<forall>e\<in>set (snd item). 0 \<le> start (char_span e) \<and> valid_entity e \<and>
      span_len (char_span e) \<le> ssize_max"
    using Cons.prems by simp
  from filter_nested_document_total [OF this] obtain out where
    "filter_nested_document (snd item) = Inr out" by blast
  moreover from Cons obtain d' where
    "filter_nested_loop (dict_set (fst item) out d) items = Inr d'" by fastforce
  ultimately show ?case by simp
qed

lemma filter_nested_entities_total:
  assumes "\<forall>item\<in>set (entities_per_document dataset).
      \<forall>e\<in>set (snd item). 0 \<le> start (char_span e) \<and> valid_entity e \<and>
        span_len (char_span e) \<le> ssize_max"
  shows "\<exists>dataset' w. filter_nested_entities dataset = Inr (dataset', w)"
proof -
  from filter_nested_loop_total [OF assms] obtain d' where
    "filter_nested_loop (entities_per_document dataset) (entities_per_document dataset) = Inr d'"
    by blast
  then show ?thesis by (simp add: filter_nested_entities_def Let_def)
qed

text \<open>
  C7.  When \<^verbatim>\<open>filter_nested_entities\<close> returns, it has issued the warning exactly when
  the total number of entities changed, and the warning reports the difference of the
  two counts; on a dataset whose entity lists are all empty it returns the dataset
  unchanged without a warning.  It does return when every entity has
  \<open>0 \<le> start < end\<close> and a length that \<^verbatim>\<open>len\<close> accepts.
\<close>

theorem filter_nested_entities_warning:
  "(\<forall>dataset' w. filter_nested_entities dataset = Inr (dataset', w) \<longrightarrow>
      ((w \<noteq> None) = (count_entities (entities_per_document dataset') \<noteq>
                       count_entities (entities_per_document dataset))) \<and>
      (\<forall>removed. w = Some removed \<longrightarrow>
         removed = count_entities (entities_per_document dataset) -
                   count_entities (entities_per_document dataset'))) \<and>
   (list_all (\<lambda>item. snd item = []) (entities_per_document dataset) \<longrightarrow>
      filter_nested_entities dataset = Inr (dataset, None)) \<and>
   ((\<forall>item\<in>set (entities_per_document dataset).
       \<forall>e\<in>set (snd item). 0 \<le> start (char_span e) \<and> valid_entity e \<and>
         span_len (char_span e) \<le> ssize_max) \<longrightarrow>
    (\<exists>dataset' w. filter_nested_entities dataset = Inr (dataset', w)))"
proof -
  have A: "\<forall>dataset' w. filter_nested_entities dataset = Inr (dataset', w) \<longrightarrow>
      ((w \<noteq> None) = (count_entities (entities_per_document dataset') \<noteq>
                       count_entities (entities_per_document dataset))) \<and>
      (\<forall>removed. w = Some removed \<longrightarrow>
         removed = count_entities (entities_per_document dataset) -
                   count_entities (entities_per_document dataset'))"
    by (auto simp: filter_nested_entities_def Let_def split: sum.splits if_splits)
  have B: "list_all (\<lambda>item. snd item = []) (entities_per_document dataset) \<longrightarrow>
      filter_nested_entities dataset = Inr (dataset, None)"
  proof
    assume "list_all (\<lambda>item. snd item = []) (entities_per_document dataset)"
    then have "\<forall>item\<in>set (entities_per_document dataset). snd item = []"
      by (simp add: list_all_iff)
    then have "filter_nested_loop (entities_per_document dataset) (entities_per_document dataset) =
        Inr (entities_per_document dataset)"
      by (rule filter_nested_loop_empty) simp
    then show "filter_nested_entities dataset = Inr (dataset, None)"
      by (simp add: filter_nested_entities_def)
  qed
  have C: "(\<forall>item\<in>set (entities_per_document dataset).
       \<forall>e\<in>set (snd item). 0 \<le> start (char_span e) \<and> valid_entity e \<and>
         span_len (char_span e) \<le> ssize_max) \<longrightarrow>
    (\<exists>dataset' w. filter_nested_entities dataset = Inr (dataset', w))"
    using filter_nested_entities_total [of dataset] by blast
  from A B C show ?thesis by blast
qed

theorem filter_nested_entities_warning_witness:
  "filter_nested_entities
     \<lparr>documents = [(''d'', ''abcdefghijklmnop'')],
      entities_per_document = [(''d'', [Ent 0 5 ''X'', Ent 3 10 ''Y'', Ent 10 15 ''X''])]\<rparr> =
   Inr (\<lparr>documents = [(''d'', ''abcdefghijklmnop'')],
         entities_per_document = [(''d'', [Ent 10 15 ''X'', Ent 3 10 ''Y''])]\<rparr>, Some 1) \<and>
   count_entities [(''d'', [Ent 10 15 ''X'', Ent 3 10 ''Y''])] \<noteq>
   count_entities [(''d'', [Ent 0 5 ''X'', Ent 3 10 ''Y'', Ent 10 15 ''X''])] \<and>
   filter_nested_entities
     \<lparr>documents = [(''d'', ''abc''), (''e'', '''')],
      entities_per_document = [(''d'', []), (''e'', [])]\<rparr> =
   Inr (\<lparr>documents = [(''d'', ''abc''), (''e'', '''')],
         entities_per_document = [(''d'', []), (''e'', [])]\<rparr>, None)"
proof -
  let ?ds = "\<lparr>documents = [(''d'', ''abcdefghijklmnop'')],
      entities_per_document = [(''d'', [Ent 0 5 ''X'', Ent 3 10 ''Y'', Ent 10 15 ''X''])]\<rparr>"
  let ?ds' = "\<lparr>documents = [(''d'', ''abcdefghijklmnop'')],
         entities_per_document = [(''d'', [Ent 10 15 ''X'', Ent 3 10 ''Y''])]\<rparr>"
  have doc: "filter_nested_document [Ent 0 5 ''X'', Ent 3 10 ''Y'', Ent 10 15 ''X''] =
           Inr [Ent 10 15 ''X'', Ent 3 10 ''Y'']"
    by (simp add: eval_defs)
  have run: "filter_nested_entities ?ds = Inr (?ds', Some 1)"
    by (simp add: filter_nested_entities_def doc count_entities_def)
  have "count_entities (entities_per_document ?ds') \<noteq> count_entities (entities_per_document ?ds)"
    using filter_nested_entities_warning [of ?ds] run by blast
  moreover have "filter_nested_entities
     \<lparr>documents = [(''d'', ''abc''), (''e'', '''')],
      entities_per_document = [(''d'', []), (''e'', [])]\<rparr> =
   Inr (\<lparr>documents = [(''d'', ''abc''), (''e'', '''')],
         entities_per_document = [(''d'', []), (''e'', [])]\<rparr>, None)"
    using filter_nested_entities_warning [of "\<lparr>documents = [(''d'', ''abc''), (''e'', '''')],
      entities_per_document = [(''d'', []), (''e'', [])]\<rparr>"] by simp
  ultimately show ?thesis using run by simp
qed

section \<open>Facts about the writer\<close>

lemma write_tokens_length:
  "write_tokens text sentence so toks st = Inr (rows, st') \<Longrightarrow> length rows = length toks"
  by (induction toks arbitrary: st rows) (auto split: sum.splits prod.splits)

lemma write_tokens_nth:
  "write_tokens text sentence so toks st = Inr (rows, st') \<Longrightarrow> k < length toks \<Longrightarrow>
   \<exists>s1 s2. write_tokens text sentence so (take k toks) st = Inr (take k rows, s1) \<and>
           process_token text sentence so (toks ! k) s1 = Inr (rows ! k, s2) \<and>
           write_tokens text sentence so (take (Suc k) toks) st = Inr (take (Suc k) rows, s2)"
proof (induction toks arbitrary: st rows k)
  case Nil
  then show ?case by simp
next
  case (Cons tok toks)
  from Cons.prems(1) obtain row s rows' where
    p: "process_token text sentence so tok st = Inr (row, s)"
    and w: "write_tokens text sentence so toks s = Inr (rows', st')"
    and r: "rows = row # rows'"
    by (auto split: sum.splits prod.splits)
  show ?case
  proof (cases k)
    case 0
    with p r show ?thesis by simp
  next
    case (Suc k')
    with Cons.prems(2) have "k' < length toks" by simp
    from Cons.IH [OF w this] obtain s1 s2 where
      "write_tokens text sentence so (take k' toks) s = Inr (take k' rows', s1)"
      "process_token text sentence so (toks ! k') s1 = Inr (rows' ! k', s2)"
      "write_tokens text sentence so (take (Suc k') toks) s = Inr (take (Suc k') rows', s2)"
      by blast
    with p r Suc show ?thesis by simp
  qed
qed

lemma write_sentences_length:
  "write_sentences tk text sents st = Inr (rowss, st') \<Longrightarrow> length rowss = length sents"
  by (induction sents arbitrary: st rowss) (auto split: sum.splits prod.splits)

lemma write_sentences_nth:
  "write_sentences tk text sents st = Inr (rowss, st') \<Longrightarrow> j < length sents \<Longrightarrow>
   \<exists>s1 s2. write_sentences tk text (take j sents) st = Inr (take j rowss, s1) \<and>
           write_tokens text (fst (sents ! j)) (snd (sents ! j)) (tokens_of tk (fst (sents ! j)))
             (s1\<lparr>in_entity := False\<rparr>) = Inr (rowss ! j, s2)"
proof (induction sents arbitrary: st rowss j)
  case Nil
  then show ?case by simp
next
  case (Cons sent sents)
  from Cons.prems(1) obtain rows s rowss' where
    p: "write_tokens text (fst sent) (snd sent) (tokens_of tk (fst sent)) (st\<lparr>in_entity := False\<rparr>) =
          Inr (rows, s)"
    and w: "write_sentences tk text sents s = Inr (rowss', st')"
    and r: "rowss = rows # rowss'"
    by (auto split: sum.splits prod.splits)
  show ?case
  proof (cases j)
    case 0
    with p r show ?thesis by simp
  next
    case (Suc j')
    with Cons.prems(2) have "j' < length sents" by simp
    from Cons.IH [OF w this] obtain s1 s2 where
      "write_sentences tk text (take j' sents) s = Inr (take j' rowss', s1)"
      "write_tokens text (fst (sents ! j')) (snd (sents ! j')) (tokens_of tk (fst (sents ! j')))
             (s1\<lparr>in_entity := False\<rparr>) = Inr (rowss' ! j', s2)"
      by blast
    with p r Suc show ?thesis by simp
  qed
qed

text \<open>The marker and the token of a processed token.\<close>

lemma process_token_row:
  assumes "process_token text sentence so tok st = Inr (row, st')"
  shows "token row = strip (fst tok) \<and>
         tag row = fst (assign_tag (so + snd tok) st) \<and>
         st' = snd (assign_tag (so + snd tok) st) \<and>
         whitespace_marker text (so + snd tok + int (length (strip (fst tok))))
           (so + int (length sentence)) = Inr (whitespace_after row)"
  using assms
  by (auto simp: process_token_def Let_def split: prod.splits sum.splits)

lemma whitespace_marker_char:
  assumes "whitespace_marker text pos sentence_end = Inr m"
  shows "m = (if py_in_bounds text pos \<and> pos < sentence_end \<and> \<not> isspace (py_nth text pos)
              then ''-'' else ''+'')"
  using assms
  by (auto simp: whitespace_marker_def py_getitem_def split: if_splits sum.splits)

lemma whitespace_marker_total:
  "0 \<le> pos \<Longrightarrow> sentence_end \<le> int (length text) \<Longrightarrow>
   \<exists>m. whitespace_marker text pos sentence_end = Inr m"
  by (auto simp: whitespace_marker_def py_getitem_def py_in_bounds_def)

lemma py_index_nonneg:
  "0 \<le> pos \<Longrightarrow> py_in_bounds text pos = (nat pos < length text)"
  "0 \<le> pos \<Longrightarrow> py_nth text pos = text ! nat pos"
  by (auto simp: py_in_bounds_def py_nth_def)

text \<open>One pending entity and an empty queue.\<close>

lemma assign_tag_single:
  assumes "current_entity st = Some e" and "entities_deque st = []"
    and "offset < stop (char_span e)"
  shows "current_entity (snd (assign_tag offset st)) = Some e \<and>
         entities_deque (snd (assign_tag offset st)) = [] \<and>
         (offset < start (char_span e) \<longrightarrow>
            fst (assign_tag offset st) = ''O'' \<and> \<not> in_entity (snd (assign_tag offset st))) \<and>
         (start (char_span e) \<le> offset \<longrightarrow>
            fst (assign_tag offset st) = (if in_entity st then ''I-'' else ''B-'') @ type e \<and>
            in_entity (snd (assign_tag offset st)))"
  using assms by (auto simp: assign_tag_def in_range_def)

lemma write_tokens_keep:
  assumes "write_tokens text sentence so toks st = Inr (rows, st')"
    and "current_entity st = Some e" and "entities_deque st = []"
    and "\<forall>t\<in>set toks. so + snd t < stop (char_span e)"
  shows "current_entity st' = Some e \<and> entities_deque st' = []"
  using assms
proof (induction toks arbitrary: st rows)
  case Nil
  then show ?case by simp
next
  case (Cons tok toks)
  from Cons.prems(1) obtain row s rows' where
    p: "process_token text sentence so tok st = Inr (row, s)"
    and w: "write_tokens text sentence so toks s = Inr (rows', st')"
    by (auto split: sum.splits prod.splits)
  have off: "so + snd tok < stop (char_span e)" using Cons.prems(4) by simp
  have s: "s = snd (assign_tag (so + snd tok) st)" using process_token_row [OF p] by simp
  have "current_entity s = Some e \<and> entities_deque s = []"
    unfolding s using assign_tag_single [OF Cons.prems(2,3) off] by simp
  then show ?case using Cons.IH [OF w] Cons.prems(4) by simp
qed

lemma write_tokens_before:
  assumes "write_tokens text sentence so toks st = Inr (rows, st')"
    and "current_entity st = Some e" and "entities_deque st = []"
    and "\<not> in_entity st"
    and "\<forall>t\<in>set toks. so + snd t < start (char_span e)"
    and "start (char_span e) < stop (char_span e)"
  shows "current_entity st' = Some e \<and> entities_deque st' = [] \<and> \<not> in_entity st'"
  using assms(1-5)
proof (induction toks arbitrary: st rows)
  case Nil
  then show ?case by simp
next
  case (Cons tok toks)
  from Cons.prems(1) obtain row s rows' where
    p: "process_token text sentence so tok st = Inr (row, s)"
    and w: "write_tokens text sentence so toks s = Inr (rows', st')"
    by (auto split: sum.splits prod.splits)
  have off: "so + snd tok < start (char_span e)" using Cons.prems(5) by simp
  then have off': "so + snd tok < stop (char_span e)" using assms(6) by simp
  have s: "s = snd (assign_tag (so + snd tok) st)" using process_token_row [OF p] by simp
  have "current_entity s = Some e \<and> entities_deque s = [] \<and> \<not> in_entity s"
    unfolding s using assign_tag_single [OF Cons.prems(2,3) off'] off by simp
  then show ?case using Cons.IH [OF w] Cons.prems(5) by simp
qed

lemma write_sentences_keep:
  assumes "write_sentences tk text sents st = Inr (rowss, st')"
    and "current_entity st = Some e" and "entities_deque st = []"
    and "\<forall>sent\<in>set sents. \<forall>t\<in>set (tokens_of tk (fst sent)). snd sent + snd t < stop (char_span e)"
  shows "current_entity st' = Some e \<and> entities_deque st' = []"
  using assms
proof (induction sents arbitrary: st rowss)
  case Nil
  then show ?case by simp
next
  case (Cons sent sents)
  from Cons.prems(1) obtain rows s rowss' where
    p: "write_tokens text (fst sent) (snd sent) (tokens_of tk (fst sent)) (st\<lparr>in_entity := False\<rparr>) =
          Inr (rows, s)"
    and w: "write_sentences tk text sents s = Inr (rowss', st')"
    by (auto split: sum.splits prod.splits)
  have "current_entity s = Some e \<and> entities_deque s = []"
    using write_tokens_keep [OF p, of e] Cons.prems(2,3,4) by simp
  then show ?case using Cons.IH [OF w] Cons.prems(4) by simp
qed

lemma take_all_nth: "(\<forall>k'<k. P (xs ! k')) \<Longrightarrow> k \<le> length xs \<Longrightarrow> \<forall>x\<in>set (take k xs). P x"
  by (auto simp: in_set_conv_nth)

lemma tokens_first_covered:
  assumes w: "write_tokens text sentence so toks st = Inr (rows, st')"
    and st: "current_entity st = Some e" "entities_deque st = []" "\<not> in_entity st"
    and k: "k < length toks"
    and before: "\<forall>k'<k. so + snd (toks ! k') < start (char_span e)"
    and cov: "in_range (so + snd (toks ! k)) (char_span e)"
  shows "tag (rows ! k) = ''B-'' @ type e \<and>
         (\<exists>s2. write_tokens text sentence so (take (Suc k) toks) st = Inr (take (Suc k) rows, s2) \<and>
            current_entity s2 = Some e \<and> entities_deque s2 = [] \<and> in_entity s2)"
proof -
  from write_tokens_nth [OF w k] obtain s1 s2 where
    pre: "write_tokens text sentence so (take k toks) st = Inr (take k rows, s1)"
    and p: "process_token text sentence so (toks ! k) s1 = Inr (rows ! k, s2)"
    and upto: "write_tokens text sentence so (take (Suc k) toks) st = Inr (take (Suc k) rows, s2)"
    by blast
  have valid: "start (char_span e) < stop (char_span e)"
    and lo: "start (char_span e) \<le> so + snd (toks ! k)"
    and hi: "so + snd (toks ! k) < stop (char_span e)"
    using cov by (auto simp: in_range_def)
  have "\<forall>t\<in>set (take k toks). so + snd t < start (char_span e)"
    using before k by (intro take_all_nth) auto
  from write_tokens_before [OF pre st this valid]
  have s1: "current_entity s1 = Some e" "entities_deque s1 = []" "\<not> in_entity s1" by auto
  from process_token_row [OF p]
  have row: "tag (rows ! k) = fst (assign_tag (so + snd (toks ! k)) s1)"
    and s2: "s2 = snd (assign_tag (so + snd (toks ! k)) s1)" by auto
  from assign_tag_single [OF s1(1,2) hi] lo s1(3)
  have "tag (rows ! k) = ''B-'' @ type e" "current_entity s2 = Some e" "entities_deque s2 = []"
    "in_entity s2"
    unfolding row s2 by auto
  with upto show ?thesis by blast
qed

lemma tokens_second_covered:
  assumes w: "write_tokens text sentence so toks st = Inr (rows, st')"
    and st: "current_entity st = Some e" "entities_deque st = []" "\<not> in_entity st"
    and k: "Suc k < length toks"
    and before: "\<forall>k'<k. so + snd (toks ! k') < start (char_span e)"
    and cov: "in_range (so + snd (toks ! k)) (char_span e)"
    and cov2: "in_range (so + snd (toks ! Suc k)) (char_span e)"
  shows "tag (rows ! Suc k) = ''I-'' @ type e"
proof -
  have k': "k < length toks" using k by simp
  from tokens_first_covered [OF w st k' before cov] obtain s2 where
    upto: "write_tokens text sentence so (take (Suc k) toks) st = Inr (take (Suc k) rows, s2)"
    and s2: "current_entity s2 = Some e" "entities_deque s2 = []" "in_entity s2"
    by blast
  from write_tokens_nth [OF w k] obtain s1 s3 where
    pre: "write_tokens text sentence so (take (Suc k) toks) st = Inr (take (Suc k) rows, s1)"
    and p: "process_token text sentence so (toks ! Suc k) s1 = Inr (rows ! Suc k, s3)"
    by blast
  from pre upto have eq: "s1 = s2" by simp
  have lo: "start (char_span e) \<le> so + snd (toks ! Suc k)"
    and hi: "so + snd (toks ! Suc k) < stop (char_span e)"
    using cov2 by (auto simp: in_range_def)
  from process_token_row [OF p]
  have row: "tag (rows ! Suc k) = fst (assign_tag (so + snd (toks ! Suc k)) s2)"
    unfolding eq by simp
  from assign_tag_single [OF s2(1,2) hi] lo s2(3)
  show ?thesis unfolding row by simp
qed

lemma initial_state_single:
  "initial_state [e] = \<lparr>current_entity = Some e, entities_deque = [], in_entity = False\<rparr>"
  by (simp add: initial_state_def)

lemma document_sentence:
  assumes "write_document tk sp text ents = Inr rowss"
    and "j < length (sentences_of sp text)"
  shows "\<exists>s1 s2. write_sentences tk text (take j (sentences_of sp text)) (initial_state ents) =
             Inr (take j rowss, s1) \<and>
           write_tokens text (fst (sentences_of sp text ! j)) (snd (sentences_of sp text ! j))
             (tokens_of tk (fst (sentences_of sp text ! j))) (s1\<lparr>in_entity := False\<rparr>) =
             Inr (rowss ! j, s2)"
proof -
  from assms(1) obtain st' where
    "write_sentences tk text (sentences_of sp text) (initial_state ents) = Inr (rowss, st')"
    by (auto simp: write_document_def split: sum.splits prod.splits)
  from write_sentences_nth [OF this assms(2)] show ?thesis .
qed

lemma document_sentence_single:
  assumes doc: "write_document tk sp text [e] = Inr rowss"
    and j: "j < length (sentences_of sp text)"
    and earlier: "\<forall>j'<j. \<forall>t\<in>set (tokens_of tk (fst (sentences_of sp text ! j'))).
        snd (sentences_of sp text ! j') + snd t < stop (char_span e)"
  shows "\<exists>s2. write_tokens text (fst (sentences_of sp text ! j)) (snd (sentences_of sp text ! j))
             (tokens_of tk (fst (sentences_of sp text ! j)))
             \<lparr>current_entity = Some e, entities_deque = [], in_entity = False\<rparr> =
             Inr (rowss ! j, s2)"
proof -
  let ?sents = "sentences_of sp text"
  from document_sentence [OF doc j] obtain s1 s2 where
    pre: "write_sentences tk text (take j ?sents) (initial_state [e]) = Inr (take j rowss, s1)"
    and w: "write_tokens text (fst (?sents ! j)) (snd (?sents ! j))
             (tokens_of tk (fst (?sents ! j))) (s1\<lparr>in_entity := False\<rparr>) = Inr (rowss ! j, s2)"
    by blast
  have "\<forall>sent\<in>set (take j ?sents). \<forall>t\<in>set (tokens_of tk (fst sent)).
      snd sent + snd t < stop (char_span e)"
    using earlier j by (intro take_all_nth) auto
  from write_sentences_keep [OF pre _ _ this, unfolded initial_state_single]
  have "current_entity s1 = Some e \<and> entities_deque s1 = []" by simp
  then have "s1\<lparr>in_entity := False\<rparr> =
      \<lparr>current_entity = Some e, entities_deque = [], in_entity = False\<rparr>"
    by (cases s1) simp
  with w show ?thesis by auto
qed

text \<open>
  C4.  In a document with one entity, let two consecutive tokens of a sentence start
  inside the entity's span, the first of them being the first token of the sentence
  that does (the tokens before it in the sentence start before the span, and no token
  of an earlier sentence starts at or after the span's end).  Then the first is tagged
  \<open>B-<type>\<close> and the second \<open>I-<type>\<close>.
\<close>

theorem writer_tags_B_then_I:
  assumes "write_document tokenizer sentence_splitter document_text [e] = Inr rowss"
    and "j < length (sentences_of sentence_splitter document_text)"
    and "sentences_of sentence_splitter document_text ! j = (sentence, sentence_offset)"
    and "Suc k < length (tokens_of tokenizer sentence)"
    and "\<forall>j'<j. \<forall>t\<in>set (tokens_of tokenizer (fst (sentences_of sentence_splitter document_text ! j'))).
           snd (sentences_of sentence_splitter document_text ! j') + snd t < stop (char_span e)"
    and "\<forall>k'<k. sentence_offset + snd (tokens_of tokenizer sentence ! k') < start (char_span e)"
    and "in_range (sentence_offset + snd (tokens_of tokenizer sentence ! k)) (char_span e)"
    and "in_range (sentence_offset + snd (tokens_of tokenizer sentence ! Suc k)) (char_span e)"
  shows "tag (rowss ! j ! k) = ''B-'' @ type e \<and> tag (rowss ! j ! Suc k) = ''I-'' @ type e"
proof -
  from document_sentence_single [OF assms(1,2,5)] obtain s2 where
    w: "write_tokens document_text sentence sentence_offset (tokens_of tokenizer sentence)
          \<lparr>current_entity = Some e, entities_deque = [], in_entity = False\<rparr> = Inr (rowss ! j, s2)"
    by (auto simp: assms(3))
  have k: "k < length (tokens_of tokenizer sentence)" using assms(4) by simp
  have "tag (rowss ! j ! k) = ''B-'' @ type e"
    using tokens_first_covered [OF w _ _ _ k assms(6,7)] by simp
  moreover have "tag (rowss ! j ! Suc k) = ''I-'' @ type e"
    using tokens_second_covered [OF w _ _ _ assms(4,6,7,8)] by simp
  ultimately show ?thesis by simp
qed

theorem writer_tags_B_then_I_witness:
  "write_document example_tokenizer sentence_split_one_sentence_per_doc ''acute heart attack now''
     [Ent 6 18 ''Disease''] =
   Inr [[\<lparr>token = ''acute'', tag = ''O'', whitespace_after = ''+''\<rparr>,
         \<lparr>token = ''heart'', tag = ''B-Disease'', whitespace_after = ''+''\<rparr>,
         \<lparr>token = ''attack'', tag = ''I-Disease'', whitespace_after = ''+''\<rparr>,
         \<lparr>token = ''now'', tag = ''O'', whitespace_after = ''+''\<rparr>]] \<and>
   tag \<lparr>token = ''heart'', tag = ''B-Disease'', whitespace_after = ''+''\<rparr> =
     ''B-'' @ type (Ent 6 18 ''Disease'') \<and>
   tag \<lparr>token = ''attack'', tag = ''I-Disease'', whitespace_after = ''+''\<rparr> =
     ''I-'' @ type (Ent 6 18 ''Disease'')"
proof -
  let ?rowss = "[[\<lparr>token = ''acute'', tag = ''O'', whitespace_after = ''+''\<rparr>,
         \<lparr>token = ''heart'', tag = ''B-Disease'', whitespace_after = ''+''\<rparr>,
         \<lparr>token = ''attack'', tag = ''I-Disease'', whitespace_after = ''+''\<rparr>,
         \<lparr>token = ''now'', tag = ''O'', whitespace_after = ''+''\<rparr>]]"
  have toks: "tokens_of example_tokenizer ''acute heart attack now'' =
      [(''acute'', 0), (''heart'', 6), (''attack'', 12), (''now'', 19)]"
    by (simp add: tokens_of_def example_tokenizer_def)
  have sents: "sentences_of sentence_split_one_sentence_per_doc ''acute heart attack now'' =
      [(''acute heart attack now'', 0)]"
    by (simp add: sentences_of_def sentence_split_one_sentence_per_doc_def)
  have run: "write_document example_tokenizer sentence_split_one_sentence_per_doc
      ''acute heart attack now'' [Ent 6 18 ''Disease''] = Inr ?rowss"
    by (simp add: write_document_def sents toks initial_state_def Ent_def process_token_def
        assign_tag_def in_range_def whitespace_marker_def py_getitem_def py_in_bounds_def
        py_nth_def strip_def isspace_def)
  have "tag (?rowss ! 0 ! 1) = ''B-'' @ type (Ent 6 18 ''Disease'') \<and>
        tag (?rowss ! 0 ! Suc 1) = ''I-'' @ type (Ent 6 18 ''Disease'')"
    by (rule writer_tags_B_then_I [OF run, where sentence = "''acute heart attack now''"
          and sentence_offset = 0])
      (simp_all add: sents toks in_range_def Ent_def)
  with run show ?thesis by simp
qed

text \<open>
  C10.  In a document with one entity whose span covers tokens of two consecutive
  sentences, the first covered token of each of the two sentences is tagged
  \<open>B-<type>\<close>: the inside-entity flag is reset at the start of every sentence.
\<close>

theorem writer_resets_in_entity_per_sentence:
  assumes "write_document tokenizer sentence_splitter document_text [e] = Inr rowss"
    and "Suc j < length (sentences_of sentence_splitter document_text)"
    and "sentences_of sentence_splitter document_text ! j = (first_sentence, first_offset)"
    and "sentences_of sentence_splitter document_text ! Suc j = (next_sentence, next_offset)"
    and "\<forall>j'\<le>j. \<forall>t\<in>set (tokens_of tokenizer (fst (sentences_of sentence_splitter document_text ! j'))).
           snd (sentences_of sentence_splitter document_text ! j') + snd t < stop (char_span e)"
    and "ka < length (tokens_of tokenizer first_sentence)"
    and "\<forall>k'<ka. first_offset + snd (tokens_of tokenizer first_sentence ! k') < start (char_span e)"
    and "in_range (first_offset + snd (tokens_of tokenizer first_sentence ! ka)) (char_span e)"
    and "kb < length (tokens_of tokenizer next_sentence)"
    and "\<forall>k'<kb. next_offset + snd (tokens_of tokenizer next_sentence ! k') < start (char_span e)"
    and "in_range (next_offset + snd (tokens_of tokenizer next_sentence ! kb)) (char_span e)"
  shows "tag (rowss ! j ! ka) = ''B-'' @ type e \<and> tag (rowss ! Suc j ! kb) = ''B-'' @ type e"
proof -
  have j: "j < length (sentences_of sentence_splitter document_text)" using assms(2) by simp
  have earlier1: "\<forall>j'<j. \<forall>t\<in>set (tokens_of tokenizer
        (fst (sentences_of sentence_splitter document_text ! j'))).
      snd (sentences_of sentence_splitter document_text ! j') + snd t < stop (char_span e)"
    using assms(5) by simp
  have earlier2: "\<forall>j'<Suc j. \<forall>t\<in>set (tokens_of tokenizer
        (fst (sentences_of sentence_splitter document_text ! j'))).
      snd (sentences_of sentence_splitter document_text ! j') + snd t < stop (char_span e)"
    using assms(5) by (simp add: less_Suc_eq_le)
  from document_sentence_single [OF assms(1) j earlier1] obtain s1 where
    w1: "write_tokens document_text first_sentence first_offset (tokens_of tokenizer first_sentence)
          \<lparr>current_entity = Some e, entities_deque = [], in_entity = False\<rparr> = Inr (rowss ! j, s1)"
    by (auto simp: assms(3))
  from document_sentence_single [OF assms(1,2) earlier2] obtain s2 where
    w2: "write_tokens document_text next_sentence next_offset (tokens_of tokenizer next_sentence)
          \<lparr>current_entity = Some e, entities_deque = [], in_entity = False\<rparr> =
          Inr (rowss ! Suc j, s2)"
    by (auto simp: assms(4))
  have "tag (rowss ! j ! ka) = ''B-'' @ type e"
    using tokens_first_covered [OF w1 _ _ _ assms(6,7,8)] by simp
  moreover have "tag (rowss ! Suc j ! kb) = ''B-'' @ type e"
    using tokens_first_covered [OF w2 _ _ _ assms(9,10,11)] by simp
  ultimately show ?thesis by simp
qed

theorem writer_resets_in_entity_per_sentence_witness:
  "write_document example_tokenizer example_splitter ''heart attack'' [Ent 0 12 ''Disease''] =
   Inr [[\<lparr>token = ''heart'', tag = ''B-Disease'', whitespace_after = ''+''\<rparr>],
        [\<lparr>token = ''attack'', tag = ''B-Disease'', whitespace_after = ''+''\<rparr>]] \<and>
   tag \<lparr>token = ''heart'', tag = ''B-Disease'', whitespace_after = ''+''\<rparr> =
     ''B-'' @ type (Ent 0 12 ''Disease'') \<and>
   tag \<lparr>token = ''attack'', tag = ''B-Disease'', whitespace_after = ''+''\<rparr> =
     ''B-'' @ type (Ent 0 12 ''Disease'')"
proof -
  let ?rowss = "[[\<lparr>token = ''heart'', tag = ''B-Disease'', whitespace_after = ''+''\<rparr>],
        [\<lparr>token = ''attack'', tag = ''B-Disease'', whitespace_after = ''+''\<rparr>]]"
  have toks: "tokens_of example_tokenizer ''heart'' = [(''heart'', 0)]"
      "tokens_of example_tokenizer ''attack'' = [(''attack'', 0)]"
    by (simp_all add: tokens_of_def example_tokenizer_def)
  have sents: "sentences_of example_splitter ''heart attack'' = [(''heart'', 0), (''attack'', 6)]"
    by (simp add: sentences_of_def example_splitter_def)
  have run: "write_document example_tokenizer example_splitter ''heart attack''
      [Ent 0 12 ''Disease''] = Inr ?rowss"
    by (simp add: write_document_def sents toks initial_state_def Ent_def process_token_def
        assign_tag_def in_range_def whitespace_marker_def py_getitem_def py_in_bounds_def
        py_nth_def strip_def isspace_def)
  have "tag (?rowss ! 0 ! 0) = ''B-'' @ type (Ent 0 12 ''Disease'') \<and>
        tag (?rowss ! Suc 0 ! 0) = ''B-'' @ type (Ent 0 12 ''Disease'')"
    by (rule writer_resets_in_entity_per_sentence [OF run, where first_sentence = "''heart''"
          and first_offset = 0 and next_sentence = "''attack''" and next_offset = 6])
      (simp_all add: sents toks in_range_def Ent_def)
  with run show ?thesis by simp
qed

lemma document_rows_processed:
  assumes "write_document tokenizer sentence_splitter document_text ents = Inr rowss"
    and "j < length (sentences_of sentence_splitter document_text)"
    and "sentences_of sentence_splitter document_text ! j = (sentence, sentence_offset)"
    and "k < length (tokens_of tokenizer sentence)"
  shows "\<exists>st st'. process_token document_text sentence sentence_offset
                    (tokens_of tokenizer sentence ! k) st = Inr (rowss ! j ! k, st')"
proof -
  from document_sentence [OF assms(1,2)] obtain s1 s2 where
    w: "write_tokens document_text sentence sentence_offset (tokens_of tokenizer sentence)
          (s1\<lparr>in_entity := False\<rparr>) = Inr (rowss ! j, s2)"
    by (auto simp: assms(3))
  from write_tokens_nth [OF w assms(4)] show ?thesis by blast
qed

text \<open>
  C5.  Whenever the loop body gets a token as far as the write, the row's token is the
  stripped token and its marker is \<open>-\<close> exactly when the character at the token's
  offset plus the stripped token's length exists in the document text, the position
  lies before the sentence's end offset, and the character is not whitespace;
  otherwise the marker is \<open>+\<close>.  The first form reads the text as Python does; for a
  non-negative position it is the plain index.  By \<open>document_rows_processed\<close> every
  row of a written document is such a result.
\<close>

theorem writer_whitespace_marker:
  assumes "process_token document_text sentence sentence_offset (tok, token_offset) st =
             Inr (row, st')"
  shows "token row = strip tok \<and>
         whitespace_after row =
           (if py_in_bounds document_text (sentence_offset + token_offset + int (length (strip tok))) \<and>
               sentence_offset + token_offset + int (length (strip tok)) <
                 sentence_offset + int (length sentence) \<and>
               \<not> isspace (py_nth document_text
                    (sentence_offset + token_offset + int (length (strip tok))))
            then ''-'' else ''+'') \<and>
         (0 \<le> sentence_offset + token_offset + int (length (strip tok)) \<longrightarrow>
          whitespace_after row =
           (if nat (sentence_offset + token_offset + int (length (strip tok))) < length document_text \<and>
               sentence_offset + token_offset + int (length (strip tok)) <
                 sentence_offset + int (length sentence) \<and>
               \<not> isspace (document_text !
                    nat (sentence_offset + token_offset + int (length (strip tok))))
            then ''-'' else ''+''))"
proof -
  let ?pos = "sentence_offset + token_offset + int (length (strip tok))"
  from process_token_row [OF assms]
  have tk: "token row = strip tok"
    and m: "whitespace_marker document_text ?pos (sentence_offset + int (length sentence)) =
              Inr (whitespace_after row)"
    by simp_all
  note ch = whitespace_marker_char [OF m]
  have "0 \<le> ?pos \<longrightarrow> whitespace_after row =
           (if nat ?pos < length document_text \<and> ?pos < sentence_offset + int (length sentence) \<and>
               \<not> isspace (document_text ! nat ?pos)
            then ''-'' else ''+'')"
  proof
    assume nn: "0 \<le> ?pos"
    show "whitespace_after row =
           (if nat ?pos < length document_text \<and> ?pos < sentence_offset + int (length sentence) \<and>
               \<not> isspace (document_text ! nat ?pos)
            then ''-'' else ''+'')"
      using ch unfolding py_index_nonneg [OF nn] .
  qed
  with tk ch show ?thesis by blast
qed

theorem writer_whitespace_marker_witness:
  "process_token ''John has flu.'' ''John has flu.'' 0 (''flu'', 9)
     \<lparr>current_entity = Some (Ent 9 12 ''Disease''), entities_deque = [], in_entity = False\<rparr> =
   Inr (\<lparr>token = ''flu'', tag = ''B-Disease'', whitespace_after = ''-''\<rparr>,
        \<lparr>current_entity = Some (Ent 9 12 ''Disease''), entities_deque = [], in_entity = True\<rparr>) \<and>
   \<not> isspace (''John has flu.'' ! 12) \<and>
   process_token ''John has flu.'' ''John has flu.'' 0 (''has'', 5)
     \<lparr>current_entity = Some (Ent 9 12 ''Disease''), entities_deque = [], in_entity = False\<rparr> =
   Inr (\<lparr>token = ''has'', tag = ''O'', whitespace_after = ''+''\<rparr>,
        \<lparr>current_entity = Some (Ent 9 12 ''Disease''), entities_deque = [], in_entity = False\<rparr>) \<and>
   isspace (''John has flu.'' ! 8)"
proof -
  let ?st = "\<lparr>current_entity = Some (Ent 9 12 ''Disease''), entities_deque = [],
              in_entity = False\<rparr>"
  have flu: "process_token ''John has flu.'' ''John has flu.'' 0 (''flu'', 9) ?st =
      Inr (\<lparr>token = ''flu'', tag = ''B-Disease'', whitespace_after = ''-''\<rparr>,
           ?st\<lparr>in_entity := True\<rparr>)"
    by (simp add: Ent_def process_token_def assign_tag_def in_range_def whitespace_marker_def
        py_getitem_def py_in_bounds_def py_nth_def strip_def isspace_def)
  have has: "process_token ''John has flu.'' ''John has flu.'' 0 (''has'', 5) ?st =
      Inr (\<lparr>token = ''has'', tag = ''O'', whitespace_after = ''+''\<rparr>, ?st)"
    by (simp add: Ent_def process_token_def assign_tag_def in_range_def whitespace_marker_def
        py_getitem_def py_in_bounds_def py_nth_def strip_def isspace_def)
  have strip: "strip ''flu'' = ''flu''" "strip ''has'' = ''has''"
    by (simp_all add: strip_def isspace_def)
  have "\<not> isspace (''John has flu.'' ! 12)"
    using writer_whitespace_marker [OF flu] by (simp add: strip split: if_splits)
  moreover have "isspace (''John has flu.'' ! 8)"
    using writer_whitespace_marker [OF has] by (simp add: strip split: if_splits)
  ultimately show ?thesis using flu has by simp
qed

lemma process_token_total:
  assumes "so + int (length sentence) \<le> int (length text)" and "0 \<le> so + snd tok"
  shows "\<exists>row st'. process_token text sentence so tok st = Inr (row, st')"
proof -
  have "0 \<le> so + snd tok + int (length (strip (fst tok)))" using assms(2) by simp
  from whitespace_marker_total [OF this assms(1)] obtain m where
    "whitespace_marker text (so + snd tok + int (length (strip (fst tok))))
       (so + int (length sentence)) = Inr m" by blast
  then show ?thesis
    by (simp add: process_token_def Let_def split: prod.splits)
qed

lemma write_tokens_total:
  assumes "so + int (length sentence) \<le> int (length text)" and "\<forall>t\<in>set toks. 0 \<le> so + snd t"
  shows "\<exists>rows st'. write_tokens text sentence so toks st = Inr (rows, st')"
  using assms(2)
proof (induction toks arbitrary: st)
  case Nil
  then show ?case by simp
next
  case (Cons tok toks)
  have "0 \<le> so + snd tok" using Cons.prems by simp
  from process_token_total [OF assms(1) this] obtain row s where
    p: "process_token text sentence so tok st = Inr (row, s)" by blast
  from Cons obtain rows st' where "write_tokens text sentence so toks s = Inr (rows, st')"
    by fastforce
  with p show ?case by simp
qed

lemma write_sentences_total:
  assumes "\<forall>sent\<in>set sents. snd sent + int (length (fst sent)) \<le> int (length text) \<and>
      (\<forall>t\<in>set (tokens_of tk (fst sent)). 0 \<le> snd sent + snd t)"
  shows "\<exists>rowss st'. write_sentences tk text sents st = Inr (rowss, st')"
  using assms
proof (induction sents arbitrary: st)
  case Nil
  then show ?case by simp
next
  case (Cons sent sents)
  have "snd sent + int (length (fst sent)) \<le> int (length text)"
    and "\<forall>t\<in>set (tokens_of tk (fst sent)). 0 \<le> snd sent + snd t"
    using Cons.prems by auto
  from write_tokens_total [OF this] obtain rows s where
    p: "write_tokens text (fst sent) (snd sent) (tokens_of tk (fst sent)) (st\<lparr>in_entity := False\<rparr>) =
          Inr (rows, s)" by blast
  from Cons obtain rowss st' where "write_sentences tk text sents s = Inr (rowss, st')"
    by fastforce
  with p show ?case by simp
qed

lemma write_document_total:
  assumes "\<forall>sent\<in>set (sentences_of sp text).
      snd sent + int (length (fst sent)) \<le> int (length text) \<and>
      (\<forall>t\<in>set (tokens_of tk (fst sent)). 0 \<le> snd sent + snd t)"
  shows "\<exists>rowss. write_document tk sp text ents = Inr rowss"
proof -
  from write_sentences_total [OF assms] obtain rowss st' where
    "write_sentences tk text (sentences_of sp text) (initial_state ents) = Inr (rowss, st')"
    by blast
  then show ?thesis by (simp add: write_document_def)
qed

text \<open>The end-to-end scenario: one document, one entity, one sentence.\<close>

lemma write_to_conll_example:
  "write_to_conll (\<lambda>s. s) example_tokenizer sentence_split_one_sentence_per_doc
     \<lparr>documents = [(''1'', ''John has flu.'')],
      entities_per_document = [(''1'', [Ent 9 12 ''Disease''])]\<rparr> =
   Inr ([''John O +'', ''has O +'', ''flu B-Disease -'', ''. O +'', ''''],
        \<lparr>documents = [(''1'', ''John has flu.'')],
         entities_per_document = [(''1'', [Ent 9 12 ''Disease''])]\<rparr>, None)"
proof -
  have toks: "tokens_of example_tokenizer ''John has flu.'' =
      [(''John'', 0), (''has'', 5), (''flu'', 9), (''.'', 12)]"
    by (simp add: tokens_of_def example_tokenizer_def)
  have sents: "sentences_of sentence_split_one_sentence_per_doc ''John has flu.'' =
      [(''John has flu.'', 0)]"
    by (simp add: sentences_of_def sentence_split_one_sentence_per_doc_def)
  have doc: "write_document example_tokenizer sentence_split_one_sentence_per_doc
      ''John has flu.'' [Ent 9 12 ''Disease''] =
      Inr [[\<lparr>token = ''John'', tag = ''O'', whitespace_after = ''+''\<rparr>,
         \<lparr>token = ''has'', tag = ''O'', whitespace_after = ''+''\<rparr>,
         \<lparr>token = ''flu'', tag = ''B-Disease'', whitespace_after = ''-''\<rparr>,
         \<lparr>token = ''.'', tag = ''O'', whitespace_after = ''+''\<rparr>]]"
    by (simp add: write_document_def sents toks initial_state_def Ent_def process_token_def
        assign_tag_def in_range_def whitespace_marker_def py_getitem_def py_in_bounds_def
        py_nth_def strip_def isspace_def)
  have res: "filter_nested_document [Ent 9 12 ''Disease''] = Inr [Ent 9 12 ''Disease'']"
    by (simp add: eval_defs)
  have flt: "filter_nested_entities
      \<lparr>documents = [(''1'', ''John has flu.'')],
       entities_per_document = [(''1'', [Ent 9 12 ''Disease''])]\<rparr> =
      Inr (\<lparr>documents = [(''1'', ''John has flu.'')],
            entities_per_document = [(''1'', [Ent 9 12 ''Disease''])]\<rparr>, None)"
    by (simp add: filter_nested_entities_def res count_entities_def)
  show ?thesis
    by (simp add: write_to_conll_def flt dict_get_def doc render_sentence_def)
qed

end
